theory Spec2Isabelle
  imports Main "HOL-Library.Word" "HOL-Library.Monad_Syntax"
begin

unbundle bit_operations_syntax

section \<open>Data model of target_flash.c\<close>

text \<open>
  Addresses are \<open>target_addr_t = uint32_t\<close> (the sentinels are \<open>UINT32_MAX\<close>).  The
  declaration of \<open>target_flash_s\<close> lives in \<open>target_internal.h\<close>; its fields are taken
  from their uses in \<open>target_flash.c\<close>.  \<open>size_t\<close> is 32 bits wide, as on the probe's
  Cortex-M firmware, so all address and length arithmetic wraps modulo \<open>2 ^ 32\<close>.
\<close>

type_synonym target_addr_t = "32 word"
type_synonym size_t = "32 word"
type_synonym uint8_t = "8 word"

definition UINT32_MAX :: "32 word" where
  "UINT32_MAX = 0xFFFFFFFF"

text \<open>
  Everything the code does to the outside world is recorded, in order, in a trace.
  A region is identified by its position in the target's region chain (this stands for
  the pointer identity \<open>target_f != f\<close> of the source).  The first group of events are
  the calls of the region and target hooks, with the value the hook returned; the second
  group are the heap and buffer operations (\<open>Memcpy\<close> also records the destination
  address of the chunk, \<open>FlushRange\<close> the dirty range \<open>[buf_addr_low, buf_addr_high)\<close> that
  a flush is about to write out); the third group marks the entry of the three internal
  routines whose order matters.
\<close>

datatype event =
    Erase nat target_addr_t size_t int
  | Write nat target_addr_t "uint8_t list" size_t int
  | Prepare nat bool
  | Done nat bool
  | EnterFlashMode bool
  | ExitFlashMode bool
  | Reset
  | Malloc nat size_t bool
  | Free nat
  | Memset nat uint8_t size_t
  | Memcpy nat target_addr_t nat "uint8_t list"
  | FlushRange nat target_addr_t target_addr_t
  | CallFlush nat
  | CallDone nat
  | CallBufferedWrite nat

text \<open>
  The world is the state of the device behind the hooks (an arbitrary type \<open>'d\<close>) and
  the trace.  Hooks are functions on the device state; they do not touch the bookkeeping
  fields of the region or of the target.
\<close>

record 'd world =
  dev :: 'd
  trace :: "event list"

definition log :: "event \<Rightarrow> 'd world \<Rightarrow> 'd world" where
  "log e w = w\<lparr>trace := trace w @ [e]\<rparr>"

record 'd target_flash =
  start :: target_addr_t
  length_f :: size_t
  blocksize :: size_t
  writesize :: size_t
  writebufsize :: size_t
  erased :: uint8_t
  ready :: bool
  erase :: "target_addr_t \<Rightarrow> size_t \<Rightarrow> 'd \<Rightarrow> int \<times> 'd"
  write_f :: "target_addr_t \<Rightarrow> uint8_t list \<Rightarrow> size_t \<Rightarrow> 'd \<Rightarrow> int \<times> 'd"
  prepare :: "('d \<Rightarrow> bool \<times> 'd) option"
  done_f :: "('d \<Rightarrow> bool \<times> 'd) option"
  buf :: "uint8_t list option"
  buf_addr_base :: target_addr_t
  buf_addr_low :: target_addr_t
  buf_addr_high :: target_addr_t

record 'd target =
  flash :: "'d target_flash list"
  flash_mode :: bool
  enter_flash_mode :: "('d \<Rightarrow> bool \<times> 'd) option"
  exit_flash_mode :: "('d \<Rightarrow> bool \<times> 'd) option"

text \<open>
  Modelled from the spec: \<open>target_reset\<close> (the default flash-mode bracket) and the
  allocator \<open>malloc\<close> are not in \<open>target_flash.c\<close>; both are parameters.  A successful
  \<open>malloc\<close> yields the indeterminate initial contents of the new block.
\<close>

record 'd env =
  malloc :: "size_t \<Rightarrow> 'd \<Rightarrow> (nat \<Rightarrow> uint8_t) option \<times> 'd"
  target_reset :: "'d \<Rightarrow> 'd"

section \<open>Calls into the environment\<close>

definition call_erase ::
  "'d target_flash \<Rightarrow> nat \<Rightarrow> target_addr_t \<Rightarrow> size_t \<Rightarrow> 'd world \<Rightarrow> int \<times> 'd world" where
  "call_erase f i a n w =
     (case erase f a n (dev w) of
        (r, d) \<Rightarrow> (r, w\<lparr>dev := d, trace := trace w @ [Erase i a n r]\<rparr>))"

definition call_write ::
  "'d target_flash \<Rightarrow> nat \<Rightarrow> target_addr_t \<Rightarrow> uint8_t list \<Rightarrow> size_t \<Rightarrow> 'd world
     \<Rightarrow> int \<times> 'd world" where
  "call_write f i a bs n w =
     (case write_f f a bs n (dev w) of
        (r, d) \<Rightarrow> (r, w\<lparr>dev := d, trace := trace w @ [Write i a bs n r]\<rparr>))"

definition call_hook ::
  "('d \<Rightarrow> bool \<times> 'd) \<Rightarrow> (bool \<Rightarrow> event) \<Rightarrow> 'd world \<Rightarrow> bool \<times> 'd world" where
  "call_hook h ev w =
     (case h (dev w) of (r, d) \<Rightarrow> (r, w\<lparr>dev := d, trace := trace w @ [ev r]\<rparr>))"

definition call_reset :: "'d env \<Rightarrow> 'd world \<Rightarrow> 'd world" where
  "call_reset e w = w\<lparr>dev := target_reset e (dev w), trace := trace w @ [Reset]\<rparr>"

definition call_malloc ::
  "'d env \<Rightarrow> nat \<Rightarrow> size_t \<Rightarrow> 'd world \<Rightarrow> uint8_t list option \<times> 'd world" where
  "call_malloc e i n w =
     (case malloc e n (dev w) of
        (None, d) \<Rightarrow> (None, w\<lparr>dev := d, trace := trace w @ [Malloc i n False]\<rparr>)
      | (Some g, d) \<Rightarrow>
          (Some (map g [0..<unat n]), w\<lparr>dev := d, trace := trace w @ [Malloc i n True]\<rparr>))"

section \<open>Buffer accesses\<close>

text \<open>
  The scratch buffer is a byte list.  An access outside the allocation, a read past the
  end of the caller's source and a division by zero are undefined in C; the model
  returns \<open>None\<close> there, as it does for a loop that never ends.
\<close>

definition slice :: "uint8_t list \<Rightarrow> nat \<Rightarrow> nat \<Rightarrow> uint8_t list option" where
  "slice b off n = (if off + n \<le> length b then Some (take n (drop off b)) else None)"

definition memset_buf :: "uint8_t list \<Rightarrow> uint8_t \<Rightarrow> nat \<Rightarrow> uint8_t list option" where
  "memset_buf b v n = (if n \<le> length b then Some (replicate n v @ drop n b) else None)"

definition memcpy_buf ::
  "uint8_t list \<Rightarrow> nat \<Rightarrow> uint8_t list \<Rightarrow> nat \<Rightarrow> uint8_t list option" where
  "memcpy_buf b off src n =
     (if off + n \<le> length b \<and> n \<le> length src
      then Some (take off b @ take n src @ drop (off + n) b) else None)"

section \<open>Region registry\<close>

text \<open>\<open>target_flash_for_addr\<close>: the first region of the chain that contains the address.\<close>

definition contains_addr :: "'d target_flash \<Rightarrow> target_addr_t \<Rightarrow> bool" where
  "contains_addr f addr = (start f \<le> addr \<and> addr < start f + length_f f)"

fun flash_for_addr_from ::
  "nat \<Rightarrow> 'd target_flash list \<Rightarrow> target_addr_t \<Rightarrow> nat option" where
  "flash_for_addr_from i [] addr = None"
| "flash_for_addr_from i (f # fs) addr =
     (if contains_addr f addr then Some i else flash_for_addr_from (Suc i) fs addr)"

definition target_flash_for_addr :: "'d target \<Rightarrow> target_addr_t \<Rightarrow> nat option" where
  "target_flash_for_addr t addr = flash_for_addr_from 0 (flash t) addr"

section \<open>Mode controller\<close>

definition target_enter_flash_mode ::
  "'d env \<Rightarrow> 'd target \<Rightarrow> 'd world \<Rightarrow> bool \<times> 'd target \<times> 'd world" where
  "target_enter_flash_mode e t w =
     (if flash_mode t then (True, t, w)
      else case (case enter_flash_mode t of
                   Some h \<Rightarrow> call_hook h EnterFlashMode w
                 | None \<Rightarrow> (True, call_reset e w)) of
             (ret, w1) \<Rightarrow> (ret, (if ret then t\<lparr>flash_mode := True\<rparr> else t), w1))"

definition target_exit_flash_mode ::
  "'d env \<Rightarrow> 'd target \<Rightarrow> 'd world \<Rightarrow> bool \<times> 'd target \<times> 'd world" where
  "target_exit_flash_mode e t w =
     (if \<not> flash_mode t then (True, t, w)
      else case (case exit_flash_mode t of
                   Some h \<Rightarrow> call_hook h ExitFlashMode w
                 | None \<Rightarrow> (True, call_reset e w)) of
             (ret, w1) \<Rightarrow> (ret, t\<lparr>flash_mode := False\<rparr>, w1))"

definition flash_prepare ::
  "'d target_flash \<Rightarrow> nat \<Rightarrow> 'd world \<Rightarrow> bool \<times> 'd target_flash \<times> 'd world" where
  "flash_prepare f i w =
     (if ready f then (True, f, w)
      else case (case prepare f of
                   Some h \<Rightarrow> call_hook h (Prepare i) w
                 | None \<Rightarrow> (True, w)) of
             (ret, w1) \<Rightarrow> (ret, (if ret then f\<lparr>ready := True\<rparr> else f), w1))"

text \<open>
  \<open>flash_done_body\<close> is \<open>flash_done\<close> without the entry mark; \<open>flash_done\<close> is what the
  callers use.
\<close>

definition flash_done_body ::
  "'d target_flash \<Rightarrow> nat \<Rightarrow> 'd world \<Rightarrow> bool \<times> 'd target_flash \<times> 'd world" where
  "flash_done_body f i w =
     (if \<not> ready f then (True, f, w)
      else case (case done_f f of
                   Some h \<Rightarrow> call_hook h (Done i) w
                 | None \<Rightarrow> (True, w)) of
             (ret, w1) \<Rightarrow>
               (case (case buf f of
                        Some b \<Rightarrow> (f\<lparr>buf := None\<rparr>, log (Free i) w1)
                      | None \<Rightarrow> (f, w1)) of
                  (f1, w2) \<Rightarrow> (ret, f1\<lparr>ready := False\<rparr>, w2)))"

definition flash_done ::
  "'d target_flash \<Rightarrow> nat \<Rightarrow> 'd world \<Rightarrow> bool \<times> 'd target_flash \<times> 'd world" where
  "flash_done f i w = flash_done_body f i (log (CallDone i) w)"

section \<open>Buffered flush\<close>

partial_function (option) flush_loop ::
  "'d target_flash \<Rightarrow> nat \<Rightarrow> uint8_t list \<Rightarrow> target_addr_t \<Rightarrow> nat \<Rightarrow> 32 word \<Rightarrow> bool
     \<Rightarrow> 'd world \<Rightarrow> (bool \<times> 'd world) option" where
  "flush_loop f i b aligned_addr src len ret w =
     (if len = 0 then Some (ret, w)
      else case slice b src (unat (writesize f)) of
             None \<Rightarrow> None
           | Some bs \<Rightarrow>
               (case call_write f i aligned_addr bs (writesize f) w of
                  (r, w1) \<Rightarrow>
                    flush_loop f i b (aligned_addr + writesize f) (src + unat (writesize f))
                      (len - min len (writesize f)) (ret \<and> r = 0) w1))"

definition flush_active :: "'d target_flash \<Rightarrow> bool" where
  "flush_active f =
     (buf f \<noteq> None \<and> buf_addr_base f \<noteq> UINT32_MAX \<and> buf_addr_low f \<noteq> UINT32_MAX
        \<and> buf_addr_low f < buf_addr_high f)"

definition flash_buffered_flush_body ::
  "'d target_flash \<Rightarrow> nat \<Rightarrow> 'd world \<Rightarrow> (bool \<times> 'd target_flash \<times> 'd world) option" where
  "flash_buffered_flush_body f i w =
     (if flush_active f then
        (case flash_prepare f i w of
           (ok, f1, w1) \<Rightarrow>
             if \<not> ok then Some (False, f1, w1)
             else
               let aligned_addr = buf_addr_low f1 AND NOT (writesize f1 - 1);
                   src = unat (aligned_addr - buf_addr_base f1);
                   len = buf_addr_high f1 - aligned_addr
               in (case buf f1 of
                     None \<Rightarrow> None
                   | Some b \<Rightarrow>
                       (case flush_loop f1 i b aligned_addr src len True
                               (log (FlushRange i (buf_addr_low f1) (buf_addr_high f1)) w1) of
                          None \<Rightarrow> None
                        | Some (ret, w2) \<Rightarrow>
                            Some (ret,
                                  f1\<lparr>buf_addr_base := UINT32_MAX, buf_addr_low := UINT32_MAX,
                                     buf_addr_high := 0\<rparr>,
                                  w2))))
      else Some (True, f, w))"

definition flash_buffered_flush ::
  "'d target_flash \<Rightarrow> nat \<Rightarrow> 'd world \<Rightarrow> (bool \<times> 'd target_flash \<times> 'd world) option" where
  "flash_buffered_flush f i w = flash_buffered_flush_body f i (log (CallFlush i) w)"

section \<open>Buffered write\<close>

definition bw_base_addr :: "'d target_flash \<Rightarrow> target_addr_t \<Rightarrow> target_addr_t" where
  "bw_base_addr f dest = dest AND NOT (writebufsize f - 1)"

definition bw_offset :: "'d target_flash \<Rightarrow> target_addr_t \<Rightarrow> size_t" where
  "bw_offset f dest = dest mod writebufsize f"

definition bw_local_len :: "'d target_flash \<Rightarrow> target_addr_t \<Rightarrow> size_t \<Rightarrow> size_t" where
  "bw_local_len f dest len = min (writebufsize f - bw_offset f dest) len"

text \<open>
  The first half of an iteration of the copy loop: on a change of the base address the
  buffer is flushed, rebased and filled with the erased value.
\<close>

definition bw_setup ::
  "'d target_flash \<Rightarrow> nat \<Rightarrow> target_addr_t \<Rightarrow> bool \<Rightarrow> 'd world
     \<Rightarrow> (bool \<times> 'd target_flash \<times> 'd world) option" where
  "bw_setup f i dest ret w =
     (if bw_base_addr f dest \<noteq> buf_addr_base f then
        (case flash_buffered_flush f i w of
           None \<Rightarrow> None
         | Some (r, f1, w1) \<Rightarrow>
             (case buf f1 of
                None \<Rightarrow> None
              | Some b0 \<Rightarrow>
                  (case memset_buf b0 (erased f1) (unat (writebufsize f1)) of
                     None \<Rightarrow> None
                   | Some b \<Rightarrow>
                       Some (ret \<and> r,
                             f1\<lparr>buf_addr_base := bw_base_addr f dest, buf := Some b\<rparr>,
                             log (Memset i (erased f1) (writebufsize f1)) w1))))
      else Some (ret, f, w))"

text \<open>The second half: the chunk is copied and the dirty range widened.\<close>

definition bw_copy ::
  "'d target_flash \<Rightarrow> nat \<Rightarrow> target_addr_t \<Rightarrow> uint8_t list \<Rightarrow> size_t \<Rightarrow> 'd world
     \<Rightarrow> ('d target_flash \<times> 'd world) option" where
  "bw_copy f i dest src len w =
     (if writebufsize f = 0 then None
      else case buf f of
             None \<Rightarrow> None
           | Some b0 \<Rightarrow>
               (case memcpy_buf b0 (unat (bw_offset f dest)) src
                       (unat (bw_local_len f dest len)) of
                  None \<Rightarrow> None
                | Some b \<Rightarrow>
                    Some (f\<lparr>buf := Some b,
                            buf_addr_low := min (buf_addr_low f) dest,
                            buf_addr_high :=
                              max (buf_addr_high f) (dest + bw_local_len f dest len)\<rparr>,
                          log (Memcpy i dest (unat (bw_offset f dest))
                                 (take (unat (bw_local_len f dest len)) src)) w)))"

partial_function (option) buffered_write_loop ::
  "'d target_flash \<Rightarrow> nat \<Rightarrow> target_addr_t \<Rightarrow> uint8_t list \<Rightarrow> size_t \<Rightarrow> bool \<Rightarrow> 'd world
     \<Rightarrow> (bool \<times> 'd target_flash \<times> 'd world) option" where
  "buffered_write_loop f i dest src len ret w =
     (if len = 0 then Some (ret, f, w)
      else case bw_setup f i dest ret w of
             None \<Rightarrow> None
           | Some (ret1, f1, w1) \<Rightarrow>
               (case bw_copy f1 i dest src len w1 of
                  None \<Rightarrow> None
                | Some (f2, w2) \<Rightarrow>
                    buffered_write_loop f2 i
                      (dest + bw_local_len f1 dest len)
                      (drop (unat (bw_local_len f1 dest len)) src)
                      (len - bw_local_len f1 dest len)
                      ret1 w2))"

definition flash_buffered_write ::
  "'d env \<Rightarrow> 'd target_flash \<Rightarrow> nat \<Rightarrow> target_addr_t \<Rightarrow> uint8_t list \<Rightarrow> size_t \<Rightarrow> 'd world
     \<Rightarrow> (bool \<times> 'd target_flash \<times> 'd world) option" where
  "flash_buffered_write e f i dest src len w0 =
     (let w = log (CallBufferedWrite i) w0 in
      if buf f = None then
        (case call_malloc e i (writebufsize f) w of
           (None, w1) \<Rightarrow> Some (False, f, w1)
         | (Some b, w1) \<Rightarrow>
             buffered_write_loop
               (f\<lparr>buf := Some b, buf_addr_base := UINT32_MAX, buf_addr_low := UINT32_MAX,
                  buf_addr_high := 0\<rparr>)
               i dest src len True w1)
      else buffered_write_loop f i dest src len True w)"

section \<open>Erase orchestrator\<close>

text \<open>Lines 136 to 138: retire every region but the resolved one.\<close>

fun erase_done_others ::
  "nat \<Rightarrow> nat \<Rightarrow> 'd target_flash list \<Rightarrow> bool \<Rightarrow> 'd world
     \<Rightarrow> bool \<times> 'd target_flash list \<times> 'd world" where
  "erase_done_others k i [] ret w = (ret, [], w)"
| "erase_done_others k i (f # fs) ret w =
     (if k \<noteq> i then
        (case flash_done f k w of
           (r, f1, w1) \<Rightarrow>
             (case erase_done_others (Suc k) i fs (ret \<and> r) w1 of
                (ret2, fs2, w2) \<Rightarrow> (ret2, f1 # fs2, w2)))
      else
        (case erase_done_others (Suc k) i fs ret w of
           (ret2, fs2, w2) \<Rightarrow> (ret2, f # fs2, w2)))"

definition local_start_addr :: "'d target_flash \<Rightarrow> target_addr_t \<Rightarrow> target_addr_t" where
  "local_start_addr f addr = addr AND NOT (blocksize f - 1)"

definition local_end_addr :: "'d target_flash \<Rightarrow> target_addr_t \<Rightarrow> target_addr_t" where
  "local_end_addr f addr = local_start_addr f addr + blocksize f"

definition erase_len_next :: "'d target_flash \<Rightarrow> target_addr_t \<Rightarrow> size_t \<Rightarrow> size_t" where
  "erase_len_next f addr len = len - min (local_end_addr f addr - addr) len"

partial_function (option) erase_loop ::
  "'d target \<Rightarrow> target_addr_t \<Rightarrow> size_t \<Rightarrow> bool \<Rightarrow> 'd world
     \<Rightarrow> (bool \<times> 'd target \<times> 'd world) option" where
  "erase_loop t addr len ret w =
     (if len = 0 then Some (ret, t, w)
      else case target_flash_for_addr t addr of
             None \<Rightarrow> Some (False, t, w)
           | Some i \<Rightarrow>
               (case erase_done_others 0 i (flash t) ret w of
                  (ret1, fs1, w1) \<Rightarrow>
                    (case flash_prepare (fs1 ! i) i w1 of
                       (ok, f1, w2) \<Rightarrow>
                         if \<not> ok then Some (False, t\<lparr>flash := fs1[i := f1]\<rparr>, w2)
                         else
                           (case call_erase f1 i (local_start_addr f1 addr) (blocksize f1) w2 of
                              (r, w3) \<Rightarrow>
                                if erase_len_next f1 addr len = 0 then
                                  (case flash_done f1 i w3 of
                                     (rd, f2, w4) \<Rightarrow>
                                       erase_loop (t\<lparr>flash := fs1[i := f2]\<rparr>)
                                         (local_end_addr f1 addr) (erase_len_next f1 addr len)
                                         ((ret1 \<and> r = 0) \<and> rd) w4)
                                else
                                  erase_loop (t\<lparr>flash := fs1[i := f1]\<rparr>)
                                    (local_end_addr f1 addr) (erase_len_next f1 addr len)
                                    (ret1 \<and> r = 0) w3))))"

definition target_flash_erase ::
  "'d env \<Rightarrow> 'd target \<Rightarrow> target_addr_t \<Rightarrow> size_t \<Rightarrow> 'd world
     \<Rightarrow> (bool \<times> 'd target \<times> 'd world) option" where
  "target_flash_erase e t addr len w =
     (case target_enter_flash_mode e t w of
        (ok, t1, w1) \<Rightarrow>
          if \<not> ok then Some (False, t1, w1) else erase_loop t1 addr len True w1)"

section \<open>Write orchestrator\<close>

text \<open>Lines 170 to 175: flush, then retire, every region but the resolved one.\<close>

fun write_flush_others ::
  "nat \<Rightarrow> nat \<Rightarrow> 'd target_flash list \<Rightarrow> bool \<Rightarrow> 'd world
     \<Rightarrow> (bool \<times> 'd target_flash list \<times> 'd world) option" where
  "write_flush_others k i [] ret w = Some (ret, [], w)"
| "write_flush_others k i (f # fs) ret w =
     (if k \<noteq> i then
        (case flash_buffered_flush f k w of
           None \<Rightarrow> None
         | Some (rf, f1, w1) \<Rightarrow>
             (case flash_done f1 k w1 of
                (rd, f2, w2) \<Rightarrow>
                  (case write_flush_others (Suc k) i fs ((ret \<and> rf) \<and> rd) w2 of
                     None \<Rightarrow> None
                   | Some (ret3, fs3, w3) \<Rightarrow> Some (ret3, f2 # fs3, w3))))
      else
        (case write_flush_others (Suc k) i fs ret w of
           None \<Rightarrow> None
         | Some (ret3, fs3, w3) \<Rightarrow> Some (ret3, f # fs3, w3)))"

text \<open>Lines 177 to 190 for the resolved region \<open>i\<close>, up to the next iteration.\<close>

definition write_local_end :: "'d target_flash \<Rightarrow> target_addr_t \<Rightarrow> size_t \<Rightarrow> target_addr_t" where
  "write_local_end f dest len = min (dest + len) (start f + length_f f)"

definition write_region ::
  "'d env \<Rightarrow> 'd target_flash \<Rightarrow> nat \<Rightarrow> target_addr_t \<Rightarrow> uint8_t list \<Rightarrow> size_t \<Rightarrow> bool
     \<Rightarrow> 'd world \<Rightarrow> (bool \<times> 'd target_flash \<times> 'd world) option" where
  "write_region e f i dest src len ret w =
     (case flash_buffered_write e f i dest src (write_local_end f dest len - dest) w of
        None \<Rightarrow> None
      | Some (r, f1, w1) \<Rightarrow>
          if write_local_end f dest len = start f1 + length_f f1 then
            (case flash_buffered_flush f1 i w1 of
               None \<Rightarrow> None
             | Some (rf, f2, w2) \<Rightarrow>
                 (case flash_done f2 i w2 of
                    (rd, f3, w3) \<Rightarrow> Some (((ret \<and> r) \<and> rf) \<and> rd, f3, w3)))
          else Some (ret \<and> r, f1, w1))"

partial_function (option) write_loop ::
  "'d env \<Rightarrow> 'd target \<Rightarrow> target_addr_t \<Rightarrow> uint8_t list \<Rightarrow> size_t \<Rightarrow> bool \<Rightarrow> 'd world
     \<Rightarrow> (bool \<times> 'd target \<times> 'd world) option" where
  "write_loop e t dest src len ret w =
     (if len = 0 then Some (ret, t, w)
      else case target_flash_for_addr t dest of
             None \<Rightarrow> Some (False, t, w)
           | Some i \<Rightarrow>
               (case write_flush_others 0 i (flash t) ret w of
                  None \<Rightarrow> None
                | Some (ret1, fs1, w1) \<Rightarrow>
                    (case write_region e (fs1 ! i) i dest src len ret1 w1 of
                       None \<Rightarrow> None
                     | Some (ret2, f1, w2) \<Rightarrow>
                         write_loop e (t\<lparr>flash := fs1[i := f1]\<rparr>)
                           (write_local_end (fs1 ! i) dest len)
                           (drop (unat (write_local_end (fs1 ! i) dest len - dest)) src)
                           (len - (write_local_end (fs1 ! i) dest len - dest))
                           ret2 w2)))"

definition target_flash_write ::
  "'d env \<Rightarrow> 'd target \<Rightarrow> target_addr_t \<Rightarrow> uint8_t list \<Rightarrow> size_t \<Rightarrow> 'd world
     \<Rightarrow> (bool \<times> 'd target \<times> 'd world) option" where
  "target_flash_write e t dest src len w =
     (case target_enter_flash_mode e t w of
        (ok, t1, w1) \<Rightarrow>
          if \<not> ok then Some (False, t1, w1) else write_loop e t1 dest src len True w1)"

section \<open>Completion\<close>

fun complete_all ::
  "nat \<Rightarrow> 'd target_flash list \<Rightarrow> bool \<Rightarrow> 'd world
     \<Rightarrow> (bool \<times> 'd target_flash list \<times> 'd world) option" where
  "complete_all k [] ret w = Some (ret, [], w)"
| "complete_all k (f # fs) ret w =
     (case flash_buffered_flush f k w of
        None \<Rightarrow> None
      | Some (rf, f1, w1) \<Rightarrow>
          (case flash_done f1 k w1 of
             (rd, f2, w2) \<Rightarrow>
               (case complete_all (Suc k) fs ((ret \<and> rf) \<and> rd) w2 of
                  None \<Rightarrow> None
                | Some (ret3, fs3, w3) \<Rightarrow> Some (ret3, f2 # fs3, w3))))"

definition target_flash_complete ::
  "'d env \<Rightarrow> 'd target \<Rightarrow> 'd world \<Rightarrow> (bool \<times> 'd target \<times> 'd world) option" where
  "target_flash_complete e t w =
     (if \<not> flash_mode t then Some (False, t, w)
      else case complete_all 0 (flash t) True w of
             None \<Rightarrow> None
           | Some (ret, fs, w1) \<Rightarrow>
               (case target_exit_flash_mode e (t\<lparr>flash := fs\<rparr>) w1 of
                  (rx, t1, w2) \<Rightarrow> Some (ret, t1, w2)))"

declare flush_loop.simps [code] buffered_write_loop.simps [code]
  erase_loop.simps [code] write_loop.simps [code]

section \<open>Observations on traces\<close>

fun is_Prepare :: "event \<Rightarrow> bool" where
  "is_Prepare (Prepare i r) = True"
| "is_Prepare _ = False"

fun is_Done :: "event \<Rightarrow> bool" where
  "is_Done (Done i r) = True"
| "is_Done _ = False"

fun is_Free :: "event \<Rightarrow> bool" where
  "is_Free (Free i) = True"
| "is_Free _ = False"

definition count_ev :: "(event \<Rightarrow> bool) \<Rightarrow> event list \<Rightarrow> nat" where
  "count_ev P tr = length (filter P tr)"

text \<open>Two consecutive calls of \<open>flash_prepare\<close>, and of \<open>flash_done\<close>, on one region.\<close>

definition prepare_twice ::
  "'d target_flash \<Rightarrow> nat \<Rightarrow> 'd world \<Rightarrow> bool \<times> 'd target_flash \<times> 'd world" where
  "prepare_twice f i w = (case flash_prepare f i w of (r1, f1, w1) \<Rightarrow> flash_prepare f1 i w1)"

definition done_twice ::
  "'d target_flash \<Rightarrow> nat \<Rightarrow> 'd world \<Rightarrow> bool \<times> 'd target_flash \<times> 'd world" where
  "done_twice f i w = (case flash_done f i w of (r1, f1, w1) \<Rightarrow> flash_done f1 i w1)"

section \<open>Example targets\<close>

text \<open>
  Region A of the scenarios: \<open>[0x08000000, 0x08001000)\<close> with 1 KiB blocks, a 256 byte
  write buffer and 16 byte write transactions.  The device state counts hook calls.
\<close>

definition hook_ok :: "nat \<Rightarrow> bool \<times> nat" where
  "hook_ok d = (True, Suc d)"

definition hook_fail :: "nat \<Rightarrow> bool \<times> nat" where
  "hook_fail d = (False, Suc d)"

definition region_A :: "nat target_flash" where
  "region_A =
     \<lparr>start = 0x08000000, length_f = 0x1000, blocksize = 0x400, writesize = 0x10,
      writebufsize = 0x100, erased = 0xFF, ready = False,
      erase = (\<lambda>a n d. (0, Suc d)), write_f = (\<lambda>a bs n d. (0, Suc d)),
      prepare = Some hook_ok, done_f = Some hook_ok, buf = None,
      buf_addr_base = UINT32_MAX, buf_addr_low = UINT32_MAX, buf_addr_high = 0\<rparr>"

text \<open>Region A holding one buffered, not yet flushed 16 byte write at its start.\<close>

definition region_A_dirty :: "nat target_flash" where
  "region_A_dirty =
     region_A\<lparr>buf := Some (replicate 16 0x55 @ replicate 240 0xFF),
              buf_addr_base := 0x08000000, buf_addr_low := 0x08000000,
              buf_addr_high := 0x08000010\<rparr>"

text \<open>The same, on a device whose write primitive reports failure.\<close>

definition region_A_dirty_wfail :: "nat target_flash" where
  "region_A_dirty_wfail = region_A_dirty\<lparr>write_f := (\<lambda>a bs n d. (1, Suc d))\<rparr>"

definition target_A :: "nat target" where
  "target_A =
     \<lparr>flash = [region_A], flash_mode = False,
      enter_flash_mode = Some hook_ok, exit_flash_mode = Some hook_fail\<rparr>"

text \<open>Target A on a device whose erase primitive fails on the block at \<open>0x08000000\<close>.\<close>

definition erase_first_fails :: "target_addr_t \<Rightarrow> size_t \<Rightarrow> nat \<Rightarrow> int \<times> nat" where
  "erase_first_fails a n d = (if a = 0x08000000 then 1 else 0, Suc d)"

definition target_A_efail :: "nat target" where
  "target_A_efail = target_A\<lparr>flash := [region_A\<lparr>erase := erase_first_fails\<rparr>]\<rparr>"

definition env_A :: "nat env" where
  "env_A = \<lparr>malloc = (\<lambda>n d. (Some (\<lambda>k. 0), d)), target_reset = (\<lambda>d. d)\<rparr>"

definition world_0 :: "nat world" where
  "world_0 = \<lparr>dev = 0, trace = []\<rparr>"

text \<open>A small target with two adjacent 16 byte regions, 8 byte pages and 4 byte writes.\<close>

definition region_S0 :: "nat target_flash" where
  "region_S0 =
     \<lparr>start = 0x1000, length_f = 0x10, blocksize = 0x10, writesize = 4,
      writebufsize = 8, erased = 0xFF, ready = False,
      erase = (\<lambda>a n d. (0, Suc d)), write_f = (\<lambda>a bs n d. (0, Suc d)),
      prepare = Some hook_ok, done_f = Some hook_ok, buf = None,
      buf_addr_base = UINT32_MAX, buf_addr_low = UINT32_MAX, buf_addr_high = 0\<rparr>"

definition region_S1 :: "nat target_flash" where
  "region_S1 = region_S0\<lparr>start := 0x1010\<rparr>"

definition target_S :: "nat target" where
  "target_S =
     \<lparr>flash = [region_S0, region_S1], flash_mode = False,
      enter_flash_mode = None, exit_flash_mode = None\<rparr>"

text \<open>
  A target with one 16 byte region whose write size, 12, is not a power of two: the page
  is 16 bytes, a power of two, and \<open>writesize \<le> writebufsize\<close>.
\<close>

definition region_W :: "nat target_flash" where
  "region_W = region_S0\<lparr>writesize := 12, writebufsize := 16\<rparr>"

definition target_W :: "nat target" where
  "target_W =
     \<lparr>flash = [region_W], flash_mode = False,
      enter_flash_mode = None, exit_flash_mode = None\<rparr>"

section \<open>Observations on results\<close>

definition returned :: "(bool \<times> 'a \<times> 'd world) option \<Rightarrow> bool option" where
  "returned x = map_option fst x"

definition result_trace :: "(bool \<times> 'a \<times> 'd world) option \<Rightarrow> event list option" where
  "result_trace x = map_option (\<lambda>y. trace (snd (snd y))) x"

definition result_flash_mode :: "(bool \<times> 'd target \<times> 'd world) option \<Rightarrow> bool option" where
  "result_flash_mode x = map_option (\<lambda>y. flash_mode (fst (snd y))) x"

text \<open>A \<open>memcpy\<close> into the scratch buffer stays inside an allocation of \<open>n\<close> bytes.\<close>

fun memcpy_in_bounds :: "nat \<Rightarrow> event \<Rightarrow> bool" where
  "memcpy_in_bounds n (Memcpy i d off bs) = (off + length bs \<le> n)"
| "memcpy_in_bounds n _ = True"

text \<open>The fields of a region that no routine of this file assigns.\<close>

definition same_config :: "'d target_flash \<Rightarrow> 'd target_flash \<Rightarrow> bool" where
  "same_config f f' =
     (start f' = start f \<and> length_f f' = length_f f \<and> blocksize f' = blocksize f
      \<and> writesize f' = writesize f \<and> writebufsize f' = writebufsize f
      \<and> erased f' = erased f \<and> erase f' = erase f \<and> write_f f' = write_f f
      \<and> prepare f' = prepare f \<and> done_f f' = done_f f)"

section \<open>Vocabulary of the erase claims\<close>

definition pow2 :: "32 word \<Rightarrow> bool" where
  "pow2 x = (\<exists>k \<in> {0..<32}. x = 2 ^ k)"

text \<open>\<open>flash_prepare\<close> on this region cannot fail: it is ready, or has no hook, or its hook
  reports success in every device state.\<close>

definition prepare_succeeds :: "'d target_flash \<Rightarrow> bool" where
  "prepare_succeeds f =
     (ready f \<or> (case prepare f of None \<Rightarrow> True | Some h \<Rightarrow> \<forall>d. fst (h d)))"

text \<open>Every address of \<open>[addr, addr + len)\<close> resolves to region \<open>i\<close>.\<close>

definition range_in_region :: "'d target \<Rightarrow> nat \<Rightarrow> target_addr_t \<Rightarrow> size_t \<Rightarrow> bool" where
  "range_in_region t i addr len =
     (\<forall>a. addr \<le> a \<and> unat a < unat addr + unat len \<longrightarrow> target_flash_for_addr t a = Some i)"

text \<open>The calls of the erase primitive in a trace: region, address, length.\<close>

fun erase_call :: "event \<Rightarrow> (nat \<times> target_addr_t \<times> size_t) list" where
  "erase_call (Erase i a n r) = [(i, a, n)]"
| "erase_call _ = []"

definition erase_calls :: "event list \<Rightarrow> (nat \<times> target_addr_t \<times> size_t) list" where
  "erase_calls tr = concat (map erase_call tr)"

text \<open>The results that \<open>target_flash_erase\<close> accumulates with \<open>&=\<close>: those of the erase
  primitive and those of \<open>flash_done\<close>, that is of the done hook.\<close>

fun erase_result :: "event \<Rightarrow> bool list" where
  "erase_result (Erase i a n r) = [r = 0]"
| "erase_result _ = []"

fun done_result :: "event \<Rightarrow> bool list" where
  "done_result (Done i r) = [r]"
| "done_result _ = []"

definition erase_results :: "event list \<Rightarrow> bool list" where
  "erase_results tr = concat (map erase_result tr)"

definition done_results :: "event list \<Rightarrow> bool list" where
  "done_results tr = concat (map done_result tr)"

text \<open>
  The blocks of size \<open>bs\<close> that meet \<open>[addr, addr + len)\<close>, in ascending order: block \<open>q\<close>
  is \<open>[q * bs, (q + 1) * bs)\<close>, from the block of \<open>addr\<close> to the block of the last byte.
\<close>

definition covering_blocks ::
  "nat \<Rightarrow> size_t \<Rightarrow> target_addr_t \<Rightarrow> size_t \<Rightarrow> (nat \<times> target_addr_t \<times> size_t) list" where
  "covering_blocks i bs addr len =
     map (\<lambda>q. (i, word_of_nat (q * unat bs), bs))
       [unat addr div unat bs ..< Suc ((unat addr + unat len - 1) div unat bs)]"

text \<open>The events a call appended to the trace.\<close>

definition new_events :: "'d world \<Rightarrow> (bool \<times> 'a \<times> 'd world) option \<Rightarrow> event list" where
  "new_events w x =
     (case x of None \<Rightarrow> [] | Some y \<Rightarrow> drop (length (trace w)) (trace (snd (snd y))))"

section \<open>A monitor for the order of flush, retire and buffered write\<close>

text \<open>
  Per region, the monitor records what has happened since bytes were last copied toward
  it: nothing (\<open>Written\<close>), a call of \<open>flash_buffered_flush\<close> (\<open>Flushed\<close>), or a call of
  \<open>flash_buffered_flush\<close> followed by a call of \<open>flash_done\<close> (\<open>Retired\<close>).
\<close>

datatype phase = Written | Flushed | Retired

fun monitor_step :: "(nat \<Rightarrow> phase) \<Rightarrow> event \<Rightarrow> (nat \<Rightarrow> phase)" where
  "monitor_step st (CallBufferedWrite i) = st(i := Written)"
| "monitor_step st (Memcpy i d off bs) = st(i := Written)"
| "monitor_step st (CallFlush j) = (if st j = Written then st(j := Flushed) else st)"
| "monitor_step st (CallDone j) = (if st j = Flushed then st(j := Retired) else st)"
| "monitor_step st _ = st"

text \<open>
  A call of \<open>flash_buffered_write\<close> on region \<open>i\<close>, and every copy of bytes toward region
  \<open>i\<close>, is allowed only when each other region of the \<open>n\<close> regions is \<open>Retired\<close>.
\<close>

fun others_retired :: "nat \<Rightarrow> (nat \<Rightarrow> phase) \<Rightarrow> nat \<Rightarrow> bool" where
  "others_retired n st i = list_all (\<lambda>j. j = i \<or> st j = Retired) [0..<n]"

fun ev_allowed :: "nat \<Rightarrow> (nat \<Rightarrow> phase) \<Rightarrow> event \<Rightarrow> bool" where
  "ev_allowed n st (CallBufferedWrite i) = others_retired n st i"
| "ev_allowed n st (Memcpy i d off bs) = others_retired n st i"
| "ev_allowed n st _ = True"

fun exclusive :: "nat \<Rightarrow> (nat \<Rightarrow> phase) \<Rightarrow> event list \<Rightarrow> bool" where
  "exclusive n st [] = True"
| "exclusive n st (e # es) = (ev_allowed n st e \<and> exclusive n (monitor_step st e) es)"

text \<open>The region an event of the monitor belongs to; the other events do not concern it.\<close>

fun ev_region :: "event \<Rightarrow> nat option" where
  "ev_region (CallBufferedWrite i) = Some i"
| "ev_region (Memcpy i d off bs) = Some i"
| "ev_region (CallFlush i) = Some i"
| "ev_region (CallDone i) = Some i"
| "ev_region _ = None"

fun copies :: "event \<Rightarrow> bool" where
  "copies (CallBufferedWrite i) = True"
| "copies (Memcpy i d off bs) = True"
| "copies _ = False"

section \<open>Reconstructing what the write primitive receives\<close>

text \<open>
  Per region, the observer keeps: the bytes copied toward the region, by destination
  address, since the region's buffer was last filled with the erased value (the shadow);
  the addresses copied to and not yet passed to the write primitive (the pending
  addresses); and the dirty range of the flush under way.
\<close>

type_synonym shadow = "target_addr_t \<Rightarrow> uint8_t option"
type_synonym region_obs =
  "(shadow \<times> target_addr_t list) \<times> target_addr_t \<times> target_addr_t"

fun obs_step :: "(nat \<Rightarrow> region_obs) \<Rightarrow> event \<Rightarrow> (nat \<Rightarrow> region_obs)" where
  "obs_step st (Memset i v n) = st(i := ((\<lambda>a. None, snd (fst (st i))), snd (st i)))"
| "obs_step st (Memcpy i dest off bs) =
     st(i := ((\<lambda>a. if unat (a - dest) < length bs then Some (bs ! unat (a - dest))
                     else fst (fst (st i)) a,
               snd (fst (st i)) @ map (\<lambda>k. dest + word_of_nat k) [0..<length bs]),
              snd (st i)))"
| "obs_step st (FlushRange i lo hi) = st(i := (fst (st i), lo, hi))"
| "obs_step st (Write i a bs n r) =
     st(i := ((fst (fst (st i)),
               filter (\<lambda>x. \<not> unat (x - a) < length bs) (snd (fst (st i)))),
              snd (st i)))"
| "obs_step st _ = st"

text \<open>
  The byte \<open>v\<close> passed to the write primitive for address \<open>x\<close> is the byte copied
  toward \<open>x\<close>, or the erased value \<open>er\<close> if none was; and outside the dirty range it is
  the erased value.
\<close>

definition expected_byte :: "uint8_t \<Rightarrow> region_obs \<Rightarrow> target_addr_t \<Rightarrow> uint8_t \<Rightarrow> bool" where
  "expected_byte er ob x v =
     (v = (case fst (fst ob) x of Some c \<Rightarrow> c | None \<Rightarrow> er)
      \<and> ((fst (snd ob) \<le> x \<and> x < snd (snd ob)) \<or> v = er))"

text \<open>
  A call of the write primitive passes \<open>writesize\<close> bytes to an address that is a
  multiple of \<open>writesize\<close>, each byte the expected one.  The buffer of a region is
  filled with the erased value, or freed, only when no address of the region is pending.
\<close>

fun write_ok :: "'d target_flash list \<Rightarrow> (nat \<Rightarrow> region_obs) \<Rightarrow> event \<Rightarrow> bool" where
  "write_ok fs st (Write i a bs n r) =
     (n = writesize (fs ! i) \<and> length bs = unat n \<and> unat n dvd unat a
      \<and> list_all (\<lambda>k. expected_byte (erased (fs ! i)) (st i) (a + word_of_nat k) (bs ! k))
           [0..<length bs])"
| "write_ok fs st (Memset i v n) = (snd (fst (st i)) = [])"
| "write_ok fs st (Free i) = (snd (fst (st i)) = [])"
| "write_ok fs st _ = True"

fun writes_ok :: "'d target_flash list \<Rightarrow> (nat \<Rightarrow> region_obs) \<Rightarrow> event list \<Rightarrow> bool" where
  "writes_ok fs st [] = True"
| "writes_ok fs st (e # es) = (write_ok fs st e \<and> writes_ok fs (obs_step st e) es)"

definition obs_0 :: "nat \<Rightarrow> region_obs" where
  "obs_0 = (\<lambda>i. ((\<lambda>a. None, []), 0, 0))"

text \<open>The prepare hook, if there is one, reports success in every device state.\<close>

definition prepare_hook_ok :: "'d target_flash \<Rightarrow> bool" where
  "prepare_hook_ok f = (case prepare f of None \<Rightarrow> True | Some h \<Rightarrow> \<forall>d. fst (h d))"

text \<open>
  A well-formed geometry.  The data model asks for a power of two \<open>writebufsize\<close> and
  for \<open>writesize \<le> writebufsize\<close>; the mask \<open>~(writesize - 1)\<close> of the flush aligns
  only when \<open>writesize\<close> is a power of two as well.
\<close>

definition geometry_ok :: "'d target_flash \<Rightarrow> bool" where
  "geometry_ok f = (pow2 (writesize f) \<and> pow2 (writebufsize f) \<and> writesize f \<le> writebufsize f)"

text \<open>A fresh target: its regions are well formed and none holds a scratch buffer.\<close>

definition fresh_target :: "'d target \<Rightarrow> bool" where
  "fresh_target t =
     list_all (\<lambda>f. geometry_ok f \<and> prepare_hook_ok f \<and> buf f = None) (flash t)"

text \<open>
  A write request \<open>(dest, src, len)\<close>: the range \<open>[dest, dest + len)\<close> lies in the 32 bit
  address space, and \<open>src\<close> holds at least \<open>len\<close> bytes.
\<close>

type_synonym request = "target_addr_t \<times> uint8_t list \<times> size_t"

fun request_ok :: "request \<Rightarrow> bool" where
  "request_ok (dest, src, len) = (unat dest + unat len < 2 ^ 32 \<and> unat len \<le> length src)"

text \<open>
  A sequence of \<open>target_flash_write\<close> calls, one after the other.  It yields, for each
  call, the value returned and the events the call appended to the trace.
\<close>

fun write_seq ::
  "'d env \<Rightarrow> 'd target \<Rightarrow> request list \<Rightarrow> 'd world
     \<Rightarrow> ((bool \<times> event list) list \<times> 'd target \<times> 'd world) option" where
  "write_seq e t [] w = Some ([], t, w)"
| "write_seq e t ((dest, src, len) # rs) w =
     (case target_flash_write e t dest src len w of
        None \<Rightarrow> None
      | Some (r, t1, w1) \<Rightarrow>
          (case write_seq e t1 rs w1 of
             None \<Rightarrow> None
           | Some (outs, t2, w2) \<Rightarrow>
               Some ((r, drop (length (trace w)) (trace w1)) # outs, t2, w2)))"

text \<open>All the events of a sequence of calls, in order.\<close>

definition all_events :: "(bool \<times> event list) list \<Rightarrow> event list" where
  "all_events outs = concat (map snd outs)"

text \<open>
  The invariant of a region's scratch buffer against the shadow and the pending addresses
  \<open>sp\<close>: without a buffer nothing is pending; the buffer has \<open>writebufsize\<close> bytes;
  without a base address the dirty range is empty and nothing is pending; with a base
  address, the base is aligned, the buffer holds the shadow's bytes and the erased value
  elsewhere, the shadow's and the pending addresses lie in the dirty range, and the dirty
  range is empty or lies in the page.
\<close>

definition buf_inv :: "'d target_flash \<Rightarrow> shadow \<times> target_addr_t list \<Rightarrow> bool" where
  "buf_inv f sp =
     (case buf f of
        None \<Rightarrow> snd sp = []
      | Some b \<Rightarrow>
          length b = unat (writebufsize f)
          \<and> (if buf_addr_base f = UINT32_MAX
             then buf_addr_low f = UINT32_MAX \<and> buf_addr_high f = 0 \<and> snd sp = []
             else unat (writebufsize f) dvd unat (buf_addr_base f)
                \<and> (\<forall>k < unat (writebufsize f).
                      b ! k = (case fst sp (buf_addr_base f + word_of_nat k) of
                                 Some v \<Rightarrow> v | None \<Rightarrow> erased f))
                \<and> (\<forall>a v. fst sp a = Some v \<longrightarrow> buf_addr_low f \<le> a \<and> a < buf_addr_high f)
                \<and> (\<forall>x \<in> set (snd sp). buf_addr_low f \<le> x \<and> x < buf_addr_high f)
                \<and> (buf_addr_low f = UINT32_MAX \<and> buf_addr_high f = 0
                    \<or> buf_addr_low f < buf_addr_high f \<and> buf_addr_base f \<le> buf_addr_low f
                      \<and> unat (buf_addr_high f)
                          \<le> unat (buf_addr_base f) + unat (writebufsize f))))"

text \<open>The events the observer ignores.\<close>

fun obs_quiet :: "event \<Rightarrow> bool" where
  "obs_quiet (Memset i v n) = False"
| "obs_quiet (Memcpy i dest off bs) = False"
| "obs_quiet (FlushRange i lo hi) = False"
| "obs_quiet (Write i a bs n r) = False"
| "obs_quiet (Free i) = False"
| "obs_quiet _ = True"

text \<open>
  The invariant of a chain of regions \<open>gs\<close>, the regions \<open>k, k + 1, \<dots>\<close> of the target
  whose initial regions are \<open>fs\<close>: each is well formed, has the configuration it started
  with, and its scratch buffer agrees with the caller's bytes.
\<close>

fun regions_inv ::
  "'d target_flash list \<Rightarrow> (nat \<Rightarrow> region_obs) \<Rightarrow> nat \<Rightarrow> 'd target_flash list \<Rightarrow> bool" where
  "regions_inv fs st k [] = True"
| "regions_inv fs st k (g # gs) =
     (geometry_ok g \<and> prepare_hook_ok g \<and> same_config (fs ! k) g \<and> buf_inv g (fst (st k))
      \<and> regions_inv fs st (Suc k) gs)"

section \<open>What a call copies from its source\<close>

text \<open>The bytes a list of events copies into scratch buffers: region, address, byte.\<close>

fun copied_bytes :: "event list \<Rightarrow> (nat \<times> target_addr_t \<times> uint8_t) list" where
  "copied_bytes [] = []"
| "copied_bytes (Memcpy i a off bs # es) =
     map (\<lambda>k. (i, a + word_of_nat k, bs ! k)) [0..<length bs] @ copied_bytes es"
| "copied_bytes (e # es) = copied_bytes es"

text \<open>
  Every byte copied is copied toward an address \<open>x\<close> of the \<open>n\<close> addresses from \<open>dest\<close>,
  into a region \<open>j\<close> that \<open>R\<close> accepts for \<open>x\<close>, and it is the byte of \<open>src\<close> for \<open>x\<close>.
\<close>

definition copies_sound ::
  "(nat \<Rightarrow> target_addr_t \<Rightarrow> bool) \<Rightarrow> target_addr_t \<Rightarrow> uint8_t list \<Rightarrow> nat \<Rightarrow> event list
     \<Rightarrow> bool" where
  "copies_sound R dest src n evs =
     list_all (\<lambda>(j, x, v). R j x \<and> unat (x - dest) < n \<and> v = src ! unat (x - dest))
       (copied_bytes evs)"

text \<open>The addresses copied to are \<open>dest, dest + 1, \<dots>, dest + n - 1\<close>, in this order.\<close>

definition copies_all :: "target_addr_t \<Rightarrow> nat \<Rightarrow> event list \<Rightarrow> bool" where
  "copies_all dest n evs =
     (map (\<lambda>(j, x, v). x) (copied_bytes evs) = map (\<lambda>k. dest + word_of_nat k) [0..<n])"

definition in_region :: "'d target_flash list \<Rightarrow> nat \<Rightarrow> target_addr_t \<Rightarrow> bool" where
  "in_region fs j x = (j < length fs \<and> contains_addr (fs ! j) x)"

text \<open>
  A call for \<open>(dest, src, len)\<close> that appended the events \<open>evs\<close> and returned \<open>r\<close>: every
  byte it copied is the source byte for its address, copied into the region that contains
  the address; and if the call returned true, it copied all \<open>len\<close> bytes.
\<close>

fun copies_ok :: "'d target_flash list \<Rightarrow> request \<Rightarrow> bool \<times> event list \<Rightarrow> bool" where
  "copies_ok fs (dest, src, len) (r, evs) =
     (copies_sound (in_region fs) dest src (unat len) evs
      \<and> (r \<longrightarrow> copies_all dest (unat len) evs))"

text \<open>No address of the regions \<open>0, \<dots>, n - 1\<close> is pending.\<close>

definition nothing_pending :: "nat \<Rightarrow> (nat \<Rightarrow> region_obs) \<Rightarrow> bool" where
  "nothing_pending n st = list_all (\<lambda>j. snd (fst (st j)) = []) [0..<n]"
section \<open>Basic facts\<close>

lemma flash_prepare_ready: "ready f \<Longrightarrow> flash_prepare f i w = (True, f, w)"
  by (simp add: flash_prepare_def)

lemma flash_prepare_success:
  assumes "flash_prepare f i w = (True, f1, w1)"
  shows "flash_prepare f1 i w1 = (True, f1, w1)"
    and "count_ev is_Prepare (trace w1) \<le> Suc (count_ev is_Prepare (trace w))"
  using assms
  by (auto simp: flash_prepare_def call_hook_def  count_ev_def
           split: option.splits prod.splits if_splits)

lemma flash_done_twice:
  assumes "flash_done f i w = (r1, f1, w1)"
  shows "flash_done f1 i w1 = (True, f1, log (CallDone i) w1)"
    and "\<not> ready f1"
    and "ready f \<Longrightarrow> buf f1 = None"
    and "count_ev is_Done (trace w1) \<le> Suc (count_ev is_Done (trace w))"
    and "count_ev is_Free (trace w1) \<le> Suc (count_ev is_Free (trace w))"
  using assms
  by (auto simp: flash_done_def flash_done_body_def call_hook_def  log_def count_ev_def
           split: option.splits prod.splits if_splits)

lemma count_ev_log [simp]: "count_ev P (trace (log e w)) = count_ev P (trace w) + (if P e then 1 else 0)"
  by (simp add: count_ev_def  log_def)

section \<open>Mode controller: idempotence\<close>

text \<open>
  Claim C4, as stated, fails for \<open>flash_prepare\<close>: a region whose prepare hook reports
  failure stays not ready, so the second of two consecutive calls invokes the hook again.
\<close>

theorem prepare_twice_failing_hook_counterexample:
  "count_ev is_Prepare
     (trace (snd (snd (prepare_twice (region_A\<lparr>prepare := Some hook_fail\<rparr>) 0 world_0)))) = 2"
  by (simp add: prepare_twice_def flash_prepare_def region_A_def hook_fail_def call_hook_def
        world_0_def  count_ev_def)

text \<open>
  Claim C4, amended.  When the first \<open>flash_prepare\<close> succeeds, two consecutive calls
  invoke the prepare hook at most once, and a call on a ready region returns true and
  changes nothing.  Two consecutive \<open>flash_done\<close> calls invoke the done hook at most once
  and free the scratch buffer at most once; after the first call the region is not ready,
  and its buffer pointer is NULL if the region was ready.
\<close>

theorem flash_prepare_done_idempotent:
  "(fst (flash_prepare f i w) \<longrightarrow>
      count_ev is_Prepare (trace (snd (snd (prepare_twice f i w))))
        \<le> Suc (count_ev is_Prepare (trace w)))
   \<and> (ready f \<longrightarrow> flash_prepare f i w = (True, f, w))
   \<and> count_ev is_Done (trace (snd (snd (done_twice f i w)))) \<le> Suc (count_ev is_Done (trace w))
   \<and> count_ev is_Free (trace (snd (snd (done_twice f i w)))) \<le> Suc (count_ev is_Free (trace w))
   \<and> \<not> ready (fst (snd (flash_done f i w)))
   \<and> (ready f \<longrightarrow> buf (fst (snd (flash_done f i w))) = None)"
proof -
  obtain r1 f1 w1 where p: "flash_prepare f i w = (r1, f1, w1)"
    by (cases "flash_prepare f i w") auto
  obtain r2 f2 w2 where d: "flash_done f i w = (r2, f2, w2)"
    by (cases "flash_done f i w") auto
  have a: "fst (flash_prepare f i w) \<longrightarrow>
      count_ev is_Prepare (trace (snd (snd (prepare_twice f i w))))
        \<le> Suc (count_ev is_Prepare (trace w))"
    using p flash_prepare_success [of f i w f1 w1] by (simp add: prepare_twice_def)
  have b: "ready f \<longrightarrow> flash_prepare f i w = (True, f, w)"
    by (simp add: flash_prepare_ready)
  have "snd (snd (done_twice f i w)) = log (CallDone i) w2"
    using d flash_done_twice(1) [OF d] by (simp add: done_twice_def)
  then have c: "count_ev is_Done (trace (snd (snd (done_twice f i w)))) \<le> Suc (count_ev is_Done (trace w))"
    "count_ev is_Free (trace (snd (snd (done_twice f i w)))) \<le> Suc (count_ev is_Free (trace w))"
    using flash_done_twice(4,5) [OF d] by simp_all
  have e: "\<not> ready (fst (snd (flash_done f i w)))"
    "ready f \<longrightarrow> buf (fst (snd (flash_done f i w))) = None"
    using d flash_done_twice(2,3) [OF d] by simp_all
  from a b c e show ?thesis by blast
qed

theorem flash_prepare_done_idempotent_witness:
  "fst (flash_prepare region_A 0 world_0)
   \<and> count_ev is_Prepare (trace (snd (snd (prepare_twice region_A 0 world_0)))) \<le> 1
   \<and> ready (region_A\<lparr>ready := True\<rparr>)
   \<and> flash_prepare (region_A\<lparr>ready := True\<rparr>) 0 world_0
       = (True, region_A\<lparr>ready := True\<rparr>, world_0)
   \<and> buf (fst (snd (flash_done (region_A_dirty\<lparr>ready := True\<rparr>) 0 world_0))) = None"
  using flash_prepare_done_idempotent [of region_A 0 world_0]
    flash_prepare_done_idempotent [of "region_A\<lparr>ready := True\<rparr>" 0 world_0]
    flash_prepare_done_idempotent [of "region_A_dirty\<lparr>ready := True\<rparr>" 0 world_0]
  by (simp add: flash_prepare_def region_A_def region_A_dirty_def hook_ok_def call_hook_def
        world_0_def  count_ev_def)

section \<open>Completion outside flash mode\<close>

text \<open>
  Claim C5.  When \<open>flash_mode\<close> is false, \<open>target_flash_complete\<close> returns false; the
  target, its regions, the device state and the trace are what they were, so no hook, no
  reset and no region operation was invoked.
\<close>

theorem target_flash_complete_not_in_flash_mode:
  "\<not> flash_mode t \<Longrightarrow> target_flash_complete e t w = Some (False, t, w)"
  by (simp add: target_flash_complete_def)

theorem target_flash_complete_not_in_flash_mode_witness:
  "\<not> flash_mode target_A
   \<and> target_flash_complete env_A target_A world_0 = Some (False, target_A, world_0)"
  using target_flash_complete_not_in_flash_mode [of target_A env_A world_0]
  by (simp add: target_A_def)

section \<open>Leaving flash mode\<close>

text \<open>
  Claim C7.  In flash mode, \<open>target_exit_flash_mode\<close> clears \<open>flash_mode\<close> whatever the
  exit hook returns; outside flash mode it returns true and changes neither the target
  nor the world (no hook, no reset).
\<close>

theorem target_exit_flash_mode_clears:
  "(flash_mode t \<longrightarrow> \<not> flash_mode (fst (snd (target_exit_flash_mode e t w))))
   \<and> (\<not> flash_mode t \<longrightarrow> target_exit_flash_mode e t w = (True, t, w))"
  by (simp add: target_exit_flash_mode_def split: option.splits prod.splits)

theorem target_exit_flash_mode_clears_witness:
  "flash_mode (target_A\<lparr>flash_mode := True\<rparr>)
   \<and> \<not> fst (target_exit_flash_mode env_A (target_A\<lparr>flash_mode := True\<rparr>) world_0)
   \<and> \<not> flash_mode (fst (snd (target_exit_flash_mode env_A (target_A\<lparr>flash_mode := True\<rparr>) world_0)))
   \<and> \<not> flash_mode target_A
   \<and> target_exit_flash_mode env_A target_A world_0 = (True, target_A, world_0)"
  using target_exit_flash_mode_clears [of "target_A\<lparr>flash_mode := True\<rparr>" env_A world_0]
    target_exit_flash_mode_clears [of target_A env_A world_0]
  by (simp add: target_A_def target_exit_flash_mode_def call_hook_def hook_fail_def world_0_def)

section \<open>Flush and the buffer sentinels\<close>

text \<open>
  Claim C6, as stated, fails when the region is not ready and its prepare hook reports
  failure: \<open>flash_buffered_flush\<close> returns false at once, and the sentinels of the
  active segment stay as they were.
\<close>

theorem flush_prepare_failure_counterexample:
  "flush_active (region_A_dirty\<lparr>prepare := Some hook_fail\<rparr>)
   \<and> flash_buffered_flush (region_A_dirty\<lparr>prepare := Some hook_fail\<rparr>) 0 world_0
       = Some (False, region_A_dirty\<lparr>prepare := Some hook_fail\<rparr>,
               \<lparr>dev = 1, trace = [CallFlush 0, Prepare 0 False]\<rparr>)
   \<and> buf_addr_base (region_A_dirty\<lparr>prepare := Some hook_fail\<rparr>) \<noteq> UINT32_MAX"
  by (simp add: flush_active_def flash_buffered_flush_def flash_buffered_flush_body_def
        flash_prepare_def region_A_dirty_def region_A_def hook_fail_def call_hook_def
        world_0_def log_def UINT32_MAX_def)

text \<open>
  Claim C6, amended.  For a region with an active buffer segment, whenever
  \<open>flash_buffered_flush\<close> returns and its \<open>flash_prepare\<close> step succeeded, the sentinels
  are reset (\<open>buf_addr_base\<close> and \<open>buf_addr_low\<close> to \<open>UINT32_MAX\<close>, \<open>buf_addr_high\<close> to 0)
  whatever the write primitive returned, and the buffer is the same; when the
  \<open>flash_prepare\<close> step failed, the call returns false and the region is unchanged.
\<close>

theorem flash_buffered_flush_resets_sentinels:
  assumes "flush_active f" and "flash_buffered_flush f i w = Some (r, f', w')"
  shows "(fst (flash_prepare f i (log (CallFlush i) w)) \<longrightarrow>
            buf_addr_base f' = UINT32_MAX \<and> buf_addr_low f' = UINT32_MAX
            \<and> buf_addr_high f' = 0 \<and> buf f' = buf f)
       \<and> (\<not> fst (flash_prepare f i (log (CallFlush i) w)) \<longrightarrow> \<not> r \<and> f' = f)"
  using assms
  by (auto simp: flash_buffered_flush_def flash_buffered_flush_body_def Let_def
        flash_prepare_def split: option.splits prod.splits if_splits)

lemma flush_region_A_dirty_wfail:
  "flash_buffered_flush region_A_dirty_wfail 0 world_0
     = Some (False,
             region_A_dirty_wfail\<lparr>ready := True, buf_addr_base := UINT32_MAX,
                                   buf_addr_low := UINT32_MAX, buf_addr_high := 0\<rparr>,
             \<lparr>dev = 2, trace = [CallFlush 0, Prepare 0 True,
                  FlushRange 0 0x08000000 0x08000010,
                  Write 0 0x08000000 (replicate 16 0x55) 0x10 1]\<rparr>)"
  by (simp add: flush_active_def flash_buffered_flush_def flash_buffered_flush_body_def
        flash_prepare_def region_A_dirty_wfail_def region_A_dirty_def region_A_def hook_ok_def
        call_hook_def world_0_def log_def UINT32_MAX_def Let_def flush_loop.simps slice_def
        call_write_def)

theorem flash_buffered_flush_resets_sentinels_witness:
  "flush_active region_A_dirty_wfail
   \<and> flash_buffered_flush region_A_dirty_wfail 0 world_0
     = Some (False,
             region_A_dirty_wfail\<lparr>ready := True, buf_addr_base := UINT32_MAX,
                                   buf_addr_low := UINT32_MAX, buf_addr_high := 0\<rparr>,
             \<lparr>dev = 2, trace = [CallFlush 0, Prepare 0 True,
                  FlushRange 0 0x08000000 0x08000010,
                  Write 0 0x08000000 (replicate 16 0x55) 0x10 1]\<rparr>)
   \<and> fst (flash_prepare region_A_dirty_wfail 0 (log (CallFlush 0) world_0))
   \<and> buf (region_A_dirty_wfail\<lparr>ready := True, buf_addr_base := UINT32_MAX,
                                 buf_addr_low := UINT32_MAX, buf_addr_high := 0\<rparr>)
       = buf region_A_dirty_wfail"
proof -
  have a: "flush_active region_A_dirty_wfail"
    by (simp add: flush_active_def region_A_dirty_wfail_def region_A_dirty_def region_A_def
          UINT32_MAX_def)
  have p: "fst (flash_prepare region_A_dirty_wfail 0 (log (CallFlush 0) world_0))"
    by (simp add: flash_prepare_def region_A_dirty_wfail_def region_A_dirty_def region_A_def
          hook_ok_def call_hook_def)
  show ?thesis
    using a p flush_region_A_dirty_wfail
      flash_buffered_flush_resets_sentinels [OF a flush_region_A_dirty_wfail]
    by simp
qed

section \<open>Evaluating the examples\<close>

lemma replicate_num: "replicate (numeral k) x = x # replicate (pred_numeral k) x"
  by (simp add: numeral_eq_Suc)

lemmas ex_defs = region_S0_def region_S1_def target_S_def env_A_def world_0_def hook_ok_def
  hook_fail_def region_A_def target_A_def region_A_dirty_def region_A_dirty_wfail_def

lemmas run_defs = returned_def result_trace_def result_flash_mode_def
  target_flash_write_def target_flash_erase_def target_flash_complete_def
  target_enter_flash_mode_def target_exit_flash_mode_def call_hook_def call_reset_def
  call_malloc_def call_erase_def call_write_def
  write_loop.simps erase_loop.simps buffered_write_loop.simps flush_loop.simps
  target_flash_for_addr_def contains_addr_def write_region_def write_local_end_def
  flash_buffered_write_def flash_buffered_flush_def flash_buffered_flush_body_def
  flush_active_def flash_prepare_def flash_done_def flash_done_body_def bw_setup_def
  bw_copy_def bw_base_addr_def bw_offset_def bw_local_len_def
  memset_buf_def memcpy_buf_def slice_def log_def UINT32_MAX_def Let_def
  local_start_addr_def local_end_addr_def erase_len_next_def replicate_num

section \<open>Frame facts\<close>

lemma trace_log [simp]: "trace (log e w) = trace w @ [e]"
  by (simp add: log_def)

lemma bw_bound: "writebufsize f \<noteq> 0 \<Longrightarrow>
   unat (bw_offset f dest) + unat (bw_local_len f dest len) \<le> unat (writebufsize f)"
proof -
  assume nz: "writebufsize f \<noteq> 0"
  have lt: "dest mod writebufsize f < writebufsize f"
    using nz by (simp add: word_mod_less_divisor word_gt_0)
  have "unat (min (writebufsize f - dest mod writebufsize f) len) \<le> unat (writebufsize f - dest mod writebufsize f)"
    by (simp add: word_le_nat_alt[symmetric])
  also have "\<dots> = unat (writebufsize f) - unat (dest mod writebufsize f)"
    using lt by (simp add: unat_sub word_le_less_eq)
  finally show ?thesis using lt by (simp add: bw_offset_def bw_local_len_def word_less_nat_alt)
qed

lemma same_config_refl [simp]: "same_config f f"
  by (simp add: same_config_def)

lemma same_config_trans: "same_config f g \<Longrightarrow> same_config g h \<Longrightarrow> same_config f h"
  by (simp add: same_config_def)

lemma flash_prepare_config: "flash_prepare f i w = (r, f', w') \<Longrightarrow> same_config f f'"
  by (auto simp: flash_prepare_def same_config_def split: if_splits option.splits prod.splits)

lemma flash_done_config: "flash_done f i w = (r, f', w') \<Longrightarrow> same_config f f'"
  by (auto simp: flash_done_def flash_done_body_def same_config_def split: if_splits option.splits prod.splits)

lemma flash_prepare_trace:
  "flash_prepare f i w = (r, f', w') \<Longrightarrow> \<exists>evs. trace w' = trace w @ evs \<and> list_all is_Prepare evs"
  by (auto simp: flash_prepare_def call_hook_def  split: if_splits option.splits prod.splits)

lemma flush_loop_trace:
  assumes "flush_loop f i b a s len ret w = Some y"
  shows "\<exists>evs. trace (snd y) = trace w @ evs \<and> list_all (memcpy_in_bounds n) evs"
proof (rule flush_loop.raw_induct
    [where P = "\<lambda>f i b a s len ret w y.
                  \<exists>evs. trace (snd y) = trace w @ evs \<and> list_all (memcpy_in_bounds n) evs",
     OF _ assms], goal_cases)
  case (1 loop f i b a s len ret w y)
  show ?case
  proof (cases "len = 0")
    case True
    with 1(2) show ?thesis by auto
  next
    case False
    with 1(2) obtain bs r w1 where
      cw: "call_write f i a bs (writesize f) w = (r, w1)" and
      rec: "loop f i b (a + writesize f) (s + unat (writesize f)) (len - min len (writesize f)) (ret \<and> r = 0) w1 = Some y"
      by (auto split: option.splits prod.splits)
    from cw have "trace w1 = trace w @ [Write i a bs (writesize f) r]"
      by (auto simp: call_write_def  split: prod.splits)
    with 1(1)[OF rec] show ?thesis by auto
  qed
qed

lemma flush_facts:
  assumes "flash_buffered_flush f i w = Some (r, f', w')"
  shows "same_config f f'" and "\<exists>evs. trace w' = trace w @ evs \<and> list_all (memcpy_in_bounds n) evs"
proof -
  show "same_config f f'"
    using assms by (auto simp: flash_buffered_flush_def flash_buffered_flush_body_def Let_def same_config_def
      dest!: flash_prepare_config split: if_splits option.splits prod.splits)
  show "\<exists>evs. trace w' = trace w @ evs \<and> list_all (memcpy_in_bounds n) evs"
  proof (cases "flush_active f")
    case False
    with assms show ?thesis by (auto simp: flash_buffered_flush_def flash_buffered_flush_body_def)
  next
    case True
    obtain ok f1 w1 where p: "flash_prepare f i (log (CallFlush i) w) = (ok, f1, w1)"
      by (cases "flash_prepare f i (log (CallFlush i) w)") auto
    from flash_prepare_trace[OF p] obtain e1 where e1: "trace w1 = trace w @ [CallFlush i] @ e1" "list_all is_Prepare e1"
      by auto
    have e1': "list_all (memcpy_in_bounds n) e1"
      using e1(2) by (induction e1) (auto elim: is_Prepare.elims)
    show ?thesis
    proof (cases ok)
      case False
      with assms True p e1 e1' show ?thesis
        by (auto simp: flash_buffered_flush_def flash_buffered_flush_body_def)
    next
      case ok: True
      with assms True p obtain b ret w2 where
        "flush_loop f1 i b (buf_addr_low f1 AND NOT (writesize f1 - 1))
           (unat ((buf_addr_low f1 AND NOT (writesize f1 - 1)) - buf_addr_base f1))
           (buf_addr_high f1 - (buf_addr_low f1 AND NOT (writesize f1 - 1))) True
           (log (FlushRange i (buf_addr_low f1) (buf_addr_high f1)) w1) = Some (ret, w2)" "w' = w2"
        by (auto simp: flash_buffered_flush_def flash_buffered_flush_body_def Let_def split: option.splits)
      from flush_loop_trace[OF this(1), of n] this(2) e1 e1' show ?thesis by auto
    qed
  qed
qed

lemma bw_setup_facts:
  assumes "bw_setup f i dest ret w = Some (r, f', w')"
  shows "same_config f f'" and "\<exists>evs. trace w' = trace w @ evs \<and> list_all (memcpy_in_bounds n) evs"
  using assms flush_facts(1)[of f i w] flush_facts(2)[of f i w _ _ _ n]
  by (auto simp: bw_setup_def same_config_def split: if_splits option.splits prod.splits)

lemma bw_copy_facts:
  assumes "bw_copy f i dest src len w = Some (f', w')"
  shows "same_config f f'" and "\<exists>evs. trace w' = trace w @ evs \<and> list_all (memcpy_in_bounds (unat (writebufsize f))) evs"
proof -
  show "same_config f f'" using assms by (auto simp: bw_copy_def same_config_def split: if_splits option.splits)
  from assms have nz: "writebufsize f \<noteq> 0" by (auto simp: bw_copy_def split: if_splits)
  from assms have "trace w' = trace w @ [Memcpy i dest (unat (bw_offset f dest)) (take (unat (bw_local_len f dest len)) src)]"
    by (auto simp: bw_copy_def split: if_splits option.splits)
  moreover have "unat (bw_offset f dest) + length (take (unat (bw_local_len f dest len)) src) \<le> unat (writebufsize f)"
    using bw_bound[OF nz, of dest len] by simp
  ultimately show "\<exists>evs. trace w' = trace w @ evs \<and> list_all (memcpy_in_bounds (unat (writebufsize f))) evs"
    by simp
qed

lemma buffered_write_loop_bounds:
  assumes "buffered_write_loop f i dest src len ret w = Some y"
  shows "\<exists>evs. trace (snd (snd y)) = trace w @ evs \<and> list_all (memcpy_in_bounds (unat (writebufsize f))) evs"
proof (rule buffered_write_loop.raw_induct
    [where P = "\<lambda>f i dest src len ret w y.
       \<exists>evs. trace (snd (snd y)) = trace w @ evs \<and> list_all (memcpy_in_bounds (unat (writebufsize f))) evs",
     OF _ assms], goal_cases)
  case (1 loop f i dest src len ret w y)
  show ?case
  proof (cases "len = 0")
    case True
    with 1(2) show ?thesis by auto
  next
    case False
    with 1(2) obtain ret1 f1 w1 f2 w2 where
      s: "bw_setup f i dest ret w = Some (ret1, f1, w1)" and
      c: "bw_copy f1 i dest src len w1 = Some (f2, w2)" and
      rec: "loop f2 i (dest + bw_local_len f1 dest len) (drop (unat (bw_local_len f1 dest len)) src)
              (len - bw_local_len f1 dest len) ret1 w2 = Some y"
      by (auto split: option.splits prod.splits)
    have wbs: "writebufsize f1 = writebufsize f" "writebufsize f2 = writebufsize f"
      using bw_setup_facts(1)[OF s] bw_copy_facts(1)[OF c] by (auto simp: same_config_def)
    from bw_setup_facts(2)[OF s, of "unat (writebufsize f)"] bw_copy_facts(2)[OF c] 1(1)[OF rec] wbs
    show ?thesis by auto
  qed
qed

section \<open>The copy loop stays inside the buffer\<close>

text \<open>
  Claim C9.  With \<open>writebufsize > 0\<close>, the in-page offset \<open>dest mod writebufsize\<close> plus the
  chunk length \<open>MIN(writebufsize - offset, len)\<close> is at most \<open>writebufsize\<close>; and in every
  run of \<open>flash_buffered_write\<close> that returns, each \<open>memcpy\<close> of the copy loop lies inside
  the \<open>writebufsize\<close> bytes of the scratch buffer.
\<close>

theorem buffered_write_memcpy_in_bounds:
  "(writebufsize f \<noteq> 0 \<longrightarrow>
      unat (bw_offset f dest) + unat (bw_local_len f dest len) \<le> unat (writebufsize f))
   \<and> (flash_buffered_write e f i dest src len w = Some (r, f', w') \<longrightarrow>
        list_all (memcpy_in_bounds (unat (writebufsize f)))
          (drop (length (trace w)) (trace w')))"
proof (intro conjI impI)
  assume a: "flash_buffered_write e f i dest src len w = Some (r, f', w')"
  show "list_all (memcpy_in_bounds (unat (writebufsize f))) (drop (length (trace w)) (trace w'))"
  proof (cases "buf f")
    case (Some b)
    with a have "buffered_write_loop f i dest src len True (log (CallBufferedWrite i) w) = Some (r, f', w')"
      by (simp add: flash_buffered_write_def)
    from buffered_write_loop_bounds[OF this] show ?thesis by auto
  next
    case None
    show ?thesis
    proof -
      obtain mb w1 where Pair: "call_malloc e i (writebufsize f) (log (CallBufferedWrite i) w) = (mb, w1)"
        by (cases "call_malloc e i (writebufsize f) (log (CallBufferedWrite i) w)") auto
      then have t1: "\<exists>ok. trace w1 = trace w @ [CallBufferedWrite i, Malloc i (writebufsize f) ok]"
        by (auto simp: call_malloc_def  log_def split: prod.splits option.splits)
      show ?thesis
      proof (cases mb)
        case None
        with a Pair \<open>buf f = None\<close> t1 show ?thesis by (auto simp: flash_buffered_write_def)
      next
        case (Some b)
        with a Pair \<open>buf f = None\<close> have "buffered_write_loop
               (f\<lparr>buf := Some b, buf_addr_base := UINT32_MAX, buf_addr_low := UINT32_MAX,
                  buf_addr_high := 0\<rparr>) i dest src len True w1 = Some (r, f', w')"
          by (simp add: flash_buffered_write_def)
        from buffered_write_loop_bounds[OF this] t1 show ?thesis by auto
      qed
    qed
  qed
qed (rule bw_bound)

lemma buffered_write_region_S0:
  "result_trace (flash_buffered_write env_A region_S0 0 0x1006 [1, 2, 3, 4] 4 world_0) =
     Some [CallBufferedWrite 0, Malloc 0 8 True, CallFlush 0, Memset 0 255 8,
           Memcpy 0 0x1006 6 [1, 2], CallFlush 0, Prepare 0 True,
           FlushRange 0 0x1006 0x1008, Write 0 0x1004 [255, 255, 1, 2] 4 0,
           Memset 0 255 8, Memcpy 0 0x1008 0 [3, 4]]"
  by (simp add: ex_defs run_defs)

theorem buffered_write_memcpy_in_bounds_witness:
  "writebufsize region_S0 \<noteq> 0
   \<and> unat (bw_offset region_S0 0x1006) + unat (bw_local_len region_S0 0x1006 4) \<le> 8
   \<and> result_trace (flash_buffered_write env_A region_S0 0 0x1006 [1, 2, 3, 4] 4 world_0) =
       Some [CallBufferedWrite 0, Malloc 0 8 True, CallFlush 0, Memset 0 255 8,
             Memcpy 0 0x1006 6 [1, 2], CallFlush 0, Prepare 0 True,
             FlushRange 0 0x1006 0x1008, Write 0 0x1004 [255, 255, 1, 2] 4 0,
           Memset 0 255 8, Memcpy 0 0x1008 0 [3, 4]]
   \<and> list_all (memcpy_in_bounds 8)
         [CallBufferedWrite 0, Malloc 0 8 True, CallFlush 0, Memset 0 255 8,
          Memcpy 0 0x1006 6 [1, 2], CallFlush 0, Prepare 0 True,
          FlushRange 0 0x1006 0x1008, Write 0 0x1004 [255, 255, 1, 2] 4 0,
          Memset 0 255 8, Memcpy 0 0x1008 0 [3, 4]]"
proof -
  obtain r f' w' where
    run: "flash_buffered_write env_A region_S0 0 0x1006 [1, 2, 3, 4] 4 world_0 = Some (r, f', w')"
    and tr: "trace w' =
       [CallBufferedWrite 0, Malloc 0 8 True, CallFlush 0, Memset 0 255 8,
        Memcpy 0 0x1006 6 [1, 2], CallFlush 0, Prepare 0 True,
        FlushRange 0 0x1006 0x1008, Write 0 0x1004 [255, 255, 1, 2] 4 0,
        Memset 0 255 8, Memcpy 0 0x1008 0 [3, 4]]"
    using buffered_write_region_S0 by (auto simp: result_trace_def)
  have nz: "writebufsize region_S0 \<noteq> 0" and wbs: "unat (writebufsize region_S0) = 8"
    by (simp_all add: region_S0_def)
  have w0: "trace world_0 = []"
    by (simp add: world_0_def )
  from buffered_write_memcpy_in_bounds
         [of region_S0 "0x1006" 4 env_A 0 "[1, 2, 3, 4]" world_0 r f' w']
  show ?thesis
    using run tr nz wbs w0 buffered_write_region_S0 by simp
qed

section \<open>Erase and write keep flash mode\<close>

lemma erase_done_others_length: "erase_done_others k i fs ret w = (r, fs', w') \<Longrightarrow> length fs' = length fs"
  by (induction fs arbitrary: k ret w r fs' w') (auto split: if_splits prod.splits)

lemma erase_loop_flash_mode:
  assumes "erase_loop t addr len ret w = Some y"
  shows "flash_mode (fst (snd y)) = flash_mode t"
proof (rule erase_loop.raw_induct
    [where P = "\<lambda>t addr len ret w y. flash_mode (fst (snd y)) = flash_mode t", OF _ assms],
    goal_cases)
  case (1 loop t addr len ret w y)
  from 1(2) show ?case
    by (auto split: if_splits option.splits prod.splits dest!: 1(1))
qed

lemma write_loop_flash_mode:
  assumes "write_loop e t dest src len ret w = Some y"
  shows "flash_mode (fst (snd y)) = flash_mode t"
proof (rule write_loop.raw_induct
    [where P = "\<lambda>e t dest src len ret w y. flash_mode (fst (snd y)) = flash_mode t", OF _ assms],
    goal_cases)
  case (1 loop e t dest src len ret w y)
  from 1(2) show ?case
    by (auto split: if_splits option.splits prod.splits dest!: 1(1))
qed

lemma enter_flash_mode_result:
  "target_enter_flash_mode e t w = (ok, t1, w1) \<Longrightarrow> flash_mode t1 = (ok \<or> flash_mode t) \<and> (flash_mode t \<longrightarrow> ok)"
  by (auto simp: target_enter_flash_mode_def split: if_splits option.splits prod.splits)

text \<open>
  Claim C10.  When \<open>target_enter_flash_mode\<close> succeeds, every \<open>target_flash_erase\<close> and
  every \<open>target_flash_write\<close> that returns, with either result, leaves \<open>flash_mode\<close>
  true; a \<open>target_flash_complete\<close> that returns in flash mode leaves it false.
\<close>

theorem erase_write_keep_flash_mode:
  "(fst (target_enter_flash_mode e t w) \<and> target_flash_erase e t addr len w = Some (r, t', w')
      \<longrightarrow> flash_mode t')
   \<and> (fst (target_enter_flash_mode e t w) \<and> target_flash_write e t dest src n w = Some (r2, t2, w2)
      \<longrightarrow> flash_mode t2)
   \<and> (flash_mode t \<and> target_flash_complete e t w = Some (r3, t3, w3) \<longrightarrow> \<not> flash_mode t3)"
proof -
  obtain ok t1 w1 where en: "target_enter_flash_mode e t w = (ok, t1, w1)"
    by (cases "target_enter_flash_mode e t w") auto
  have a: "ok \<Longrightarrow> target_flash_erase e t addr len w = Some (r, t', w') \<Longrightarrow> flash_mode t'"
    using en enter_flash_mode_result[OF en] by (auto simp: target_flash_erase_def dest!: erase_loop_flash_mode)
  have b: "ok \<Longrightarrow> target_flash_write e t dest src n w = Some (r2, t2, w2) \<Longrightarrow> flash_mode t2"
    using en enter_flash_mode_result[OF en] by (auto simp: target_flash_write_def dest!: write_loop_flash_mode)
  have c: "flash_mode t \<Longrightarrow> target_flash_complete e t w = Some (r3, t3, w3) \<Longrightarrow> \<not> flash_mode t3"
    by (auto simp: target_flash_complete_def target_exit_flash_mode_def split: option.splits prod.splits)
  from a b c en show ?thesis by auto
qed

lemma flash_mode_examples:
  "result_flash_mode (target_flash_erase env_A target_A 0x08000010 0x10 world_0) = Some True"
  "result_flash_mode (target_flash_write env_A target_S 0x100E [1, 2, 3, 4] 4 world_0) = Some True"
  "result_flash_mode (target_flash_complete env_A (target_A\<lparr>flash_mode := True\<rparr>) world_0)
     = Some False"
  by (simp_all add: ex_defs run_defs)

theorem erase_write_keep_flash_mode_witness:
  "fst (target_enter_flash_mode env_A target_A world_0)
   \<and> result_flash_mode (target_flash_erase env_A target_A 0x08000010 0x10 world_0) = Some True
   \<and> fst (target_enter_flash_mode env_A target_S world_0)
   \<and> result_flash_mode (target_flash_write env_A target_S 0x100E [1, 2, 3, 4] 4 world_0)
       = Some True
   \<and> flash_mode (target_A\<lparr>flash_mode := True\<rparr>)
   \<and> result_flash_mode (target_flash_complete env_A (target_A\<lparr>flash_mode := True\<rparr>) world_0)
       = Some False"
proof -
  obtain r t' w' where
    a: "target_flash_erase env_A target_A 0x08000010 0x10 world_0 = Some (r, t', w')"
    using flash_mode_examples(1) by (auto simp: result_flash_mode_def)
  obtain r2 t2 w2 where
    b: "target_flash_write env_A target_S 0x100E [1, 2, 3, 4] 4 world_0 = Some (r2, t2, w2)"
    using flash_mode_examples(2) by (auto simp: result_flash_mode_def)
  obtain r3 t3 w3 where
    c: "target_flash_complete env_A (target_A\<lparr>flash_mode := True\<rparr>) world_0 = Some (r3, t3, w3)"
    using flash_mode_examples(3) by (auto simp: result_flash_mode_def)
  have en: "fst (target_enter_flash_mode env_A target_A world_0)"
    "fst (target_enter_flash_mode env_A target_S world_0)"
    by (simp_all add: ex_defs target_enter_flash_mode_def call_hook_def call_reset_def)
  have fm: "flash_mode (target_A\<lparr>flash_mode := True\<rparr>)"
    by simp
  have k1: "flash_mode t'"
    by (rule erase_write_keep_flash_mode
          [THEN conjunct1, rule_format, OF conjI, OF en(1) a])
  have k2: "flash_mode t2"
    by (rule erase_write_keep_flash_mode
          [THEN conjunct2, THEN conjunct1, rule_format, OF conjI, OF en(2) b])
  have k3: "\<not> flash_mode t3"
    by (rule erase_write_keep_flash_mode
          [THEN conjunct2, THEN conjunct2, rule_format, OF conjI, OF fm c])
  show ?thesis
    using k1 k2 k3 en fm by (simp add: result_flash_mode_def a b c)
qed

section \<open>Block arithmetic\<close>

lemma pow2_lt: "k < 32 \<Longrightarrow> (2::nat) ^ k < 4294967296"
proof -
  assume "k < 32"
  then have "(2::nat) ^ k < 2 ^ 32" by (rule power_strict_increasing) simp
  then show ?thesis by simp
qed

lemma unat_2p: "k < 32 \<Longrightarrow> unat ((2::32 word) ^ k) = 2 ^ k"
proof -
  assume k: "k < 32"
  have "(2::32 word) ^ k = word_of_nat (2 ^ k)" by simp
  also have "unat (word_of_nat (2 ^ k) :: 32 word) = 2 ^ k mod 2 ^ 32"
    by (simp only: unat_of_nat) simp
  also have "\<dots> = 2 ^ k" using pow2_lt[OF k] by simp
  finally show ?thesis .
qed

lemma and_not_mask_eq: "(a :: 32 word) AND NOT (2 ^ k - 1) = a - a mod 2 ^ k"
proof -
  have "a AND NOT (mask k) = push_bit k (drop_bit k a)"
    by (rule bit_eqI) (auto simp: bit_simps)
  moreover have "push_bit k (drop_bit k a) + take_bit k a = a"
    by (rule bits_ident)
  ultimately have "a AND NOT (mask k) = a - take_bit k a"
    by (simp add: eq_diff_eq)
  then show ?thesis
    by (simp add: mask_eq_exp_minus_1 take_bit_eq_mod)
qed

lemma unat_mod_2p: "k < 32 \<Longrightarrow> unat ((a :: 32 word) mod 2 ^ k) = unat a mod 2 ^ k"
  by (simp add: unat_mod unat_2p)

lemma word_mod_le: "(a :: 32 word) mod b \<le> a"
  by (metis mod_less_eq_dividend unat_mod_distrib word_less_eq_iff_unsigned)

lemma unat_align: 
  assumes "k < 32" shows "unat ((a :: 32 word) AND NOT (2 ^ k - 1)) = (unat a div 2 ^ k) * 2 ^ k"
proof -
  have "unat (a - a mod 2 ^ k) = unat a - unat (a mod 2 ^ k)"
    using word_mod_le[of a "2 ^ k"] by (simp add: unat_sub)
  then show ?thesis using assms
    by (simp add: and_not_mask_eq unat_mod_2p minus_mod_eq_div_mult)
qed

lemma nat_block:
  fixes n B :: nat
  assumes "0 < B"
  shows "n < (n div B + 1) * B" and "B - n mod B = (n div B + 1) * B - n"
    and "n div B * B \<le> n" and "n - n div B * B = n mod B"
proof -
  have e: "n div B * B + n mod B = n" by simp
  have l: "n mod B < B" using assms by simp
  have m: "(n div B + 1) * B = n div B * B + B" by (simp add: algebra_simps)
  show "n < (n div B + 1) * B" using e l m by linarith
  show "B - n mod B = (n div B + 1) * B - n" using e l m by linarith
  show "n div B * B \<le> n" using e by linarith
  show "n - n div B * B = n mod B" using e by linarith
qed

text \<open>The block arithmetic of one iteration of the erase loop, on naturals.\<close>

lemma erase_step_arith:
  fixes addr len :: "32 word"
  assumes k: "k < 32" and nw: "unat addr + unat len < 2 ^ 32" and len: "len \<noteq> 0"
  defines "B \<equiv> (2::nat) ^ k"
  defines "ls \<equiv> addr AND NOT (2 ^ k - 1)"
  defines "le \<equiv> ls + 2 ^ k"
  shows "unat ls = (unat addr div B) * B"
    and "unat (le - addr) = (unat addr div B + 1) * B - unat addr"
    and "unat (len - min (le - addr) len) = unat len - min ((unat addr div B + 1) * B - unat addr) (unat len)"
    and "len - min (le - addr) len \<noteq> 0 \<Longrightarrow> unat le = (unat addr div B + 1) * B"
proof -
  have Bpos: "0 < B" by (simp add: B_def)
  have Blt: "B < 2 ^ 32" using pow2_lt[OF k] by (simp add: B_def)
  show ls: "unat ls = (unat addr div B) * B"
    by (simp add: ls_def B_def unat_align[OF k])
  have lsle: "unat ls \<le> unat addr" using nat_block(3)[OF Bpos, of "unat addr"] by (simp add: ls)
  have gt: "unat addr < (unat addr div B + 1) * B"
    using Bpos by (rule nat_block)
  have eq: "le - addr = 2 ^ k - (addr - ls)" by (simp add: le_def)
  have d1: "unat (addr - ls) = unat addr - unat ls"
    using lsle by (simp add: unat_sub word_le_nat_alt)
  have d1': "unat (addr - ls) = unat addr mod B"
    using nat_block(4)[OF Bpos, of "unat addr"] by (simp add: d1 ls)
  have "unat (addr - ls) < B" using Bpos by (simp add: d1')
  then have "addr - ls \<le> 2 ^ k" by (simp add: word_le_nat_alt unat_2p[OF k] B_def)
  then have "unat (2 ^ k - (addr - ls)) = B - unat addr mod B"
    by (simp add: unat_sub unat_2p[OF k] B_def d1'[unfolded B_def])
  also have "\<dots> = (unat addr div B + 1) * B - unat addr"
    using Bpos by (rule nat_block)
  finally have X: "unat (2 ^ k - (addr - ls)) = (unat addr div B + 1) * B - unat addr" .
  show delta: "unat (le - addr) = (unat addr div B + 1) * B - unat addr"
    unfolding eq by (rule X)
  have ml: "min (le - addr) len \<le> len" by simp
  have um: "unat (min (le - addr) len) = min (unat (le - addr)) (unat len)"
    by (simp add: min_def word_le_nat_alt)
  show l': "unat (len - min (le - addr) len) = unat len - min ((unat addr div B + 1) * B - unat addr) (unat len)"
    using ml by (simp add: unat_sub um delta)
  assume "len - min (le - addr) len \<noteq> 0"
  then have "unat (len - min (le - addr) len) \<noteq> 0" by (simp add: unat_eq_0)
  then have "(unat addr div B + 1) * B - unat addr < unat len" using l' by simp
  then have "(unat addr div B + 1) * B < 2 ^ 32" using nw by simp
  moreover have "unat ls + B = (unat addr div B + 1) * B" by (simp add: ls)
  ultimately show "unat le = (unat addr div B + 1) * B"
    by (simp add: le_def unat_add_lem[THEN iffD1] unat_2p[OF k] B_def)
qed


section \<open>The erase loop inside one region\<close>

lemma flash_for_addr_from_Some:
  "flash_for_addr_from k fs a = Some i \<Longrightarrow>
     k \<le> i \<and> i - k < length fs \<and> contains_addr (fs ! (i - k)) a"
proof (induction fs arbitrary: k)
  case Nil
  then show ?case by simp
next
  case (Cons f fs)
  show ?case
  proof (cases "contains_addr f a")
    case True
    with Cons.prems show ?thesis by simp
  next
    case False
    with Cons.prems have "flash_for_addr_from (Suc k) fs a = Some i" by simp
    from Cons.IH[OF this] show ?thesis by (auto simp: Suc_diff_le)
  qed
qed

lemma target_flash_for_addr_Some:
  "target_flash_for_addr t a = Some i \<Longrightarrow> i < length (flash t) \<and> contains_addr (flash t ! i) a"
  using flash_for_addr_from_Some[of 0 "flash t" a i] by (simp add: target_flash_for_addr_def)

lemma flash_for_addr_from_config:
  "list_all2 same_config fs fs' \<Longrightarrow> flash_for_addr_from k fs' a = flash_for_addr_from k fs a"
  by (induction fs fs' arbitrary: k rule: list_all2_induct)
     (auto simp: contains_addr_def same_config_def)

lemma same_config_sym: "same_config f g \<Longrightarrow> same_config g f"
  by (simp add: same_config_def)

lemma list_all2_same_config_refl [simp]: "list_all2 same_config fs fs"
  by (simp add: list_all2_refl)

lemma list_all2_same_config_update:
  "list_all2 same_config fs fs' \<Longrightarrow> i < length fs \<Longrightarrow> same_config (fs ! i) f
     \<Longrightarrow> list_all2 same_config fs (fs'[i := f])"
  by (auto simp: list_all2_conv_all_nth nth_list_update)

lemma contains_max_False: "\<not> contains_addr f (- 1)"
  by (simp add: contains_addr_def word_order.extremum_strict not_less)

lemma range_no_wrap:
  assumes "range_in_region t i addr len"
  shows "unat addr + unat len < 2 ^ 32"
proof (rule ccontr)
  assume "\<not> unat addr + unat len < 2 ^ 32"
  moreover have "unat (- 1 :: 32 word) = 2 ^ 32 - 1"
    by (simp add: unsigned_minus_1_eq_mask mask_eq_exp_minus_1)
  ultimately have "unat (- 1 :: 32 word) < unat addr + unat len" by simp
  moreover have "addr \<le> - 1" by simp
  ultimately have "target_flash_for_addr t (- 1) = Some i"
    using assms unfolding range_in_region_def by blast
  from target_flash_for_addr_Some[OF this] contains_max_False show False by blast
qed

text \<open>What the trace observations make of appended events.\<close>

lemma erase_calls_append [simp]: "erase_calls (xs @ ys) = erase_calls xs @ erase_calls ys"
  by (simp add: erase_calls_def)

lemma erase_results_append [simp]: "erase_results (xs @ ys) = erase_results xs @ erase_results ys"
  by (simp add: erase_results_def)

lemma done_results_append [simp]: "done_results (xs @ ys) = done_results xs @ done_results ys"
  by (simp add: done_results_def)

lemma obs_Nil [simp]: "erase_calls [] = []" "erase_results [] = []" "done_results [] = []"
  by (simp_all add: erase_calls_def erase_results_def done_results_def)

lemma obs_Cons [simp]:
  "erase_calls (e # es) = erase_call e @ erase_calls es"
  "erase_results (e # es) = erase_result e @ erase_results es"
  "done_results (e # es) = done_result e @ done_results es"
  by (simp_all add: erase_calls_def erase_results_def done_results_def)

lemma flash_done_erase:
  assumes "flash_done f i w = (r, f', w')"
  shows "same_config f f'"
    and "\<exists>evs. trace w' = trace w @ evs \<and> erase_calls evs = [] \<and> erase_results evs = []
           \<and> r = (False \<notin> set (done_results evs))"
  using assms
  by (auto simp: flash_done_def flash_done_body_def same_config_def call_hook_def  log_def
      split: if_splits option.splits prod.splits)

lemma flash_prepare_succeeds:
  assumes "prepare_succeeds f" and "flash_prepare f i w = (ok, f', w')"
  shows "ok" and "ready f'" and "same_config f f'"
    and "\<exists>evs. trace w' = trace w @ evs \<and> erase_calls evs = [] \<and> erase_results evs = []
           \<and> done_results evs = []"
proof -
  show "ok"
    using assms
    by (auto simp: prepare_succeeds_def flash_prepare_def call_hook_def
        split: if_splits option.splits prod.splits) (metis fst_conv)
  then show "ready f'"
    using assms(2) by (auto simp: flash_prepare_def split: if_splits option.splits prod.splits)
  show "same_config f f'"
    using assms(2) by (rule flash_prepare_config)
  show "\<exists>evs. trace w' = trace w @ evs \<and> erase_calls evs = [] \<and> erase_results evs = []
           \<and> done_results evs = []"
    using assms(2)
    by (auto simp: flash_prepare_def call_hook_def  split: if_splits option.splits prod.splits)
qed

lemma erase_done_others_facts:
  assumes "erase_done_others k i fs ret w = (r, fs', w')"
  shows "list_all2 same_config fs fs'"
    and "k \<le> i \<Longrightarrow> i - k < length fs \<Longrightarrow> fs' ! (i - k) = fs ! (i - k)"
    and "\<exists>evs. trace w' = trace w @ evs \<and> erase_calls evs = [] \<and> erase_results evs = []
           \<and> r = (ret \<and> False \<notin> set (done_results evs))"
proof -
  show "list_all2 same_config fs fs'"
    using assms
  proof (induction fs arbitrary: k ret w r fs' w')
    case Nil
    then show ?case by simp
  next
    case (Cons f fs)
    then show ?case
      by (auto split: if_splits prod.splits dest: flash_done_erase(1))
  qed
  show "k \<le> i \<Longrightarrow> i - k < length fs \<Longrightarrow> fs' ! (i - k) = fs ! (i - k)"
    using assms
  proof (induction fs arbitrary: k ret w r fs' w')
    case Nil
    then show ?case by simp
  next
    case (Cons f fs)
    show ?case
    proof (cases "k = i")
      case True
      with Cons.prems show ?thesis by (auto split: prod.splits)
    next
      case False
      with Cons.prems have lt: "Suc k \<le> i" "i - Suc k < length fs" by auto
      from False Cons.prems obtain r1 f1 w1 ret2 fs2 w2 where
        "erase_done_others (Suc k) i fs (ret \<and> r1) w1 = (ret2, fs2, w2)" "fs' = f1 # fs2"
        by (auto split: prod.splits)
      with Cons.IH[OF lt this(1)] lt False Cons.prems(1) show ?thesis
        by (simp add: nth_Cons' Suc_diff_le)
    qed
  qed
  show "\<exists>evs. trace w' = trace w @ evs \<and> erase_calls evs = [] \<and> erase_results evs = []
           \<and> r = (ret \<and> False \<notin> set (done_results evs))"
    using assms
  proof (induction fs arbitrary: k ret w r fs' w')
    case Nil
    then show ?case by simp
  next
    case (Cons f fs)
    show ?case
    proof (cases "k = i")
      case True
      with Cons.prems obtain fs2 where "erase_done_others (Suc k) i fs ret w = (r, fs2, w')"
        by (auto split: prod.splits)
      from Cons.IH[OF this] show ?thesis .
    next
      case False
      with Cons.prems obtain r1 f1 w1 fs2 where
        d: "flash_done f k w = (r1, f1, w1)" and
        rec: "erase_done_others (Suc k) i fs (ret \<and> r1) w1 = (r, fs2, w')"
        by (auto split: prod.splits)
      from flash_done_erase(2)[OF d] Cons.IH[OF rec] show ?thesis by auto
    qed
  qed
qed


lemma obs_length: "length (erase_results evs) = length (erase_calls evs)"
proof (induction evs)
  case Nil
  show ?case by simp
next
  case (Cons e evs)
  then show ?case by (cases e) simp_all
qed

lemma cover_last:
  fixes A L B :: nat
  assumes "0 < B" "1 \<le> L" "L \<le> (A div B + 1) * B - A"
  shows "(A + L - 1) div B = A div B"
proof (rule div_nat_eqI)
  have a: "B * (A div B) \<le> A"
    using nat_block(3)[OF assms(1), of A] by (simp add: mult.commute)
  show "B * (A div B) \<le> A + L - 1" using a assms(2) by linarith
  have b: "A < (A div B + 1) * B" using nat_block(1)[OF assms(1)] .
  have c: "(A div B + 1) * B = B * Suc (A div B)" by (simp add: mult.commute)
  show "A + L - 1 < B * Suc (A div B)" using b c assms(2,3) by linarith
qed

lemma covering_blocks_last:
  assumes "bs \<noteq> 0" "len \<noteq> 0"
    and "unat len \<le> (unat addr div unat bs + 1) * unat bs - unat addr"
  shows "covering_blocks i bs addr len = [(i, word_of_nat (unat addr div unat bs * unat bs), bs)]"
proof -
  have B: "0 < unat bs" using assms(1) by (simp add: unat_gt_0)
  have L: "1 \<le> unat len" using assms(2) by (simp add: unat_gt_0 Suc_le_eq)
  show ?thesis
    unfolding covering_blocks_def cover_last[OF B L assms(3)] by simp
qed

lemma covering_blocks_step:
  assumes "bs \<noteq> 0"
    and "(unat addr div unat bs + 1) * unat bs - unat addr < unat len"
    and "unat addr' = (unat addr div unat bs + 1) * unat bs"
    and "unat len' = unat len - ((unat addr div unat bs + 1) * unat bs - unat addr)"
  shows "covering_blocks i bs addr len =
           (i, word_of_nat (unat addr div unat bs * unat bs), bs) # covering_blocks i bs addr' len'"
proof -
  have B: "0 < unat bs" using assms(1) by (simp add: unat_gt_0)
  have lt: "unat addr < (unat addr div unat bs + 1) * unat bs" using nat_block(1)[OF B] .
  have sum: "unat addr' + unat len' = unat addr + unat len"
    using assms(2,3,4) lt by linarith
  have q: "unat addr' div unat bs = Suc (unat addr div unat bs)"
    using B by (simp add: assms(3))
  have "unat addr div unat bs \<le> (unat addr + unat len - 1) div unat bs"
    using assms(2) by (intro div_le_mono) linarith
  then have "[unat addr div unat bs ..< Suc ((unat addr + unat len - 1) div unat bs)]
      = unat addr div unat bs # [Suc (unat addr div unat bs) ..< Suc ((unat addr + unat len - 1) div unat bs)]"
    by (simp add: upt_conv_Cons)
  then show ?thesis
    by (simp add: covering_blocks_def q sum)
qed

lemma erase_loop_0: "erase_loop t addr 0 ret w = Some (ret, t, w)"
  by (subst erase_loop.simps) simp

lemma erase_loop_single_region:
  fixes t :: "'d target"
  assumes "len \<noteq> 0" "range_in_region t i addr len" "pow2 (blocksize (flash t ! i))"
    "prepare_succeeds (flash t ! i)"
  shows "\<exists>r t' w' evs. erase_loop t addr len ret w = Some (r, t', w') \<and> trace w' = trace w @ evs
        \<and> erase_calls evs = covering_blocks i (blocksize (flash t ! i)) addr len
        \<and> r = (ret \<and> False \<notin> set (erase_results evs) \<and> False \<notin> set (done_results evs))"
  using assms
proof (induction "unat len" arbitrary: t addr len ret w rule: less_induct)
  case less
  let ?f = "flash t ! i"
  from less.prems(3) obtain k where k: "k < 32" and bs: "blocksize ?f = 2 ^ k"
    by (auto simp: pow2_def)
  have ubs: "unat (blocksize ?f) = 2 ^ k" by (simp add: bs unat_2p[OF k])
  have bsnz: "blocksize ?f \<noteq> 0" using ubs by (metis power_not_zero unat_0 zero_neq_numeral)
  have nw: "unat addr + unat len < 2 ^ 32" using less.prems(2) by (rule range_no_wrap)
  have "unat addr < unat addr + unat len" using less.prems(1) by (simp add: unat_gt_0)
  then have res: "target_flash_for_addr t addr = Some i"
    using less.prems(2) unfolding range_in_region_def by blast
  from target_flash_for_addr_Some[OF res] have i: "i < length (flash t)" by simp
  obtain ret1 fs1 w1 where others: "erase_done_others 0 i (flash t) ret w = (ret1, fs1, w1)"
    by (cases "erase_done_others 0 i (flash t) ret w") auto
  from erase_done_others_facts[OF others] i obtain evs1 where
    cfg1: "list_all2 same_config (flash t) fs1" and same_i: "fs1 ! i = ?f" and
    tr1: "trace w1 = trace w @ evs1" and ec1: "erase_calls evs1 = []" and
    er1: "erase_results evs1 = []" and r1: "ret1 = (ret \<and> False \<notin> set (done_results evs1))"
    by auto
  obtain ok f1 w2 where prep: "flash_prepare ?f i w1 = (ok, f1, w2)"
    by (cases "flash_prepare ?f i w1") auto
  from flash_prepare_succeeds[OF less.prems(4) prep] obtain evs2 where
    ok: "ok" and rdy: "ready f1" and cfg2: "same_config ?f f1" and
    tr2: "trace w2 = trace w1 @ evs2" and ec2: "erase_calls evs2 = []" and
    er2: "erase_results evs2 = []" and dr2: "done_results evs2 = []"
    by auto
  have bs1: "blocksize f1 = 2 ^ k" using cfg2 bs by (simp add: same_config_def)
  define ls where "ls = addr AND NOT (2 ^ k - 1)"
  define q where "q = unat addr div 2 ^ k"
  obtain r w3 where er: "call_erase f1 i ls (2 ^ k) w2 = (r, w3)"
    by (cases "call_erase f1 i ls (2 ^ k) w2") auto
  then have tr3: "trace w3 = trace w2 @ [Erase i ls (2 ^ k) r]"
    by (auto simp: call_erase_def split: prod.splits)
  define len' where "len' = len - min (ls + 2 ^ k - addr) len"
  have ar1: "unat ls = q * 2 ^ k"
    unfolding ls_def q_def by (rule erase_step_arith(1)[OF k nw less.prems(1)])
  have ar3: "unat len' = unat len - min ((q + 1) * 2 ^ k - unat addr) (unat len)"
    unfolding len'_def ls_def q_def by (rule erase_step_arith(3)[OF k nw less.prems(1)])
  have ar4: "len' \<noteq> 0 \<Longrightarrow> unat (ls + 2 ^ k) = (q + 1) * 2 ^ k"
    unfolding len'_def ls_def q_def by (rule erase_step_arith(4)[OF k nw less.prems(1)])
  have "ls = word_of_nat (unat ls)" by simp
  then have lsq: "ls = word_of_nat (q * unat (blocksize ?f))"
    by (simp only: ar1 ubs)
  have lsa: "local_start_addr f1 addr = ls" "local_end_addr f1 addr = ls + 2 ^ k"
    "erase_len_next f1 addr len = len'"
    by (simp_all add: local_start_addr_def local_end_addr_def erase_len_next_def bs1 ls_def len'_def)
  have cfgl: "list_all2 same_config (flash t) (fs1[i := g])" if "same_config ?f g" for g
    using list_all2_same_config_update[OF cfg1 i that] .
  show ?case
  proof (cases "len' = 0")
    case True
    obtain rd f2 w4 where dn: "flash_done f1 i w3 = (rd, f2, w4)"
      by (cases "flash_done f1 i w3") auto
    from flash_done_erase(2)[OF dn] obtain evs4 where
      tr4: "trace w4 = trace w3 @ evs4" and ec4: "erase_calls evs4 = []" and
      er4: "erase_results evs4 = []" and rd: "rd = (False \<notin> set (done_results evs4))"
      by auto
    have run: "erase_loop t addr len ret w
        = Some (((ret1 \<and> r = 0) \<and> rd), t\<lparr>flash := fs1[i := f2]\<rparr>, w4)"
      using less.prems(1) True
      by (subst erase_loop.simps)
         (simp add: res others same_i prep ok lsa bs1 er dn erase_loop_0)
    have "unat len' = 0" using True by simp
    then have "unat len \<le> (q + 1) * 2 ^ k - unat addr" using ar3 by arith
    then have cb: "covering_blocks i (blocksize ?f) addr len = [(i, ls, blocksize ?f)]"
      using covering_blocks_last[OF bsnz less.prems(1), of addr i] lsq by (simp add: ubs q_def)
    show ?thesis
      using run cb tr1 tr2 tr3 tr4 ec1 ec2 ec4 er1 er2 er4 dr2 r1 rd bs
      by (auto simp: bs)
  next
    case False
    let ?t1 = "t\<lparr>flash := fs1[i := f1]\<rparr>"
    have run: "erase_loop t addr len ret w
        = erase_loop ?t1 (ls + 2 ^ k) len' (ret1 \<and> r = 0) w3"
      using less.prems(1) False
      by (subst erase_loop.simps) (simp add: res others same_i prep ok lsa bs1 er)
    have ule: "unat (ls + 2 ^ k) = (q + 1) * 2 ^ k"
      using ar4 False by simp
    have "unat len' \<noteq> 0" using False by (simp add: unat_eq_0)
    then have gt: "(q + 1) * 2 ^ k - unat addr < unat len"
      using ar3 by arith
    have ul': "unat len' = unat len - ((q + 1) * 2 ^ k - unat addr)"
      using ar3 gt by arith
    have lt: "unat addr < (q + 1) * 2 ^ k"
      unfolding q_def by (rule nat_block(1)) simp
    have smaller: "unat len' < unat len" using ul' gt lt by linarith
    have sum: "unat (ls + 2 ^ k) + unat len' = unat addr + unat len"
      using ule ul' gt lt by linarith
    have fl: "flash ?t1 ! i = f1" using i cfg1 by (simp add: list_all2_lengthD[symmetric])
    have cfg: "list_all2 same_config (flash t) (flash ?t1)"
      using cfgl[OF cfg2] by simp
    have rng: "range_in_region ?t1 i (ls + 2 ^ k) len'"
      unfolding range_in_region_def
    proof (intro allI impI)
      fix a assume a: "ls + 2 ^ k \<le> a \<and> unat a < unat (ls + 2 ^ k) + unat len'"
      then have "unat addr \<le> unat a" using ule lt by (simp add: word_le_nat_alt)
      then have "addr \<le> a \<and> unat a < unat addr + unat len"
        using a sum by (simp add: word_le_nat_alt)
      then have "target_flash_for_addr t a = Some i"
        using less.prems(2) unfolding range_in_region_def by blast
      then show "target_flash_for_addr ?t1 a = Some i"
        using flash_for_addr_from_config[OF cfg, of 0 a] by (simp add: target_flash_for_addr_def)
    qed
    have p2: "pow2 (blocksize (flash ?t1 ! i))"
      unfolding fl bs1 pow2_def using k by auto
    have ps: "prepare_succeeds (flash ?t1 ! i)"
      unfolding fl using rdy by (simp add: prepare_succeeds_def)
    from less.hyps[OF smaller False rng p2 ps, of "ret1 \<and> r = 0" w3]
    obtain r' t' w' evs where
      rec: "erase_loop ?t1 (ls + 2 ^ k) len' (ret1 \<and> r = 0) w3 = Some (r', t', w')" and
      tr': "trace w' = trace w3 @ evs" and
      ec0: "erase_calls evs = covering_blocks i (blocksize (flash ?t1 ! i)) (ls + 2 ^ k) len'" and
      r': "r' = ((ret1 \<and> r = 0) \<and> False \<notin> set (erase_results evs) \<and> False \<notin> set (done_results evs))"
      by blast
    have cb: "covering_blocks i (blocksize ?f) addr len
        = (i, ls, blocksize ?f) # covering_blocks i (blocksize ?f) (ls + 2 ^ k) len'"
      using covering_blocks_step[OF bsnz, of addr len "ls + 2 ^ k" len' i] gt ule ul' lsq
      by (simp add: ubs q_def)
    have ec': "erase_calls evs = covering_blocks i (blocksize ?f) (ls + 2 ^ k) len'"
      using ec0 unfolding fl bs1 bs .
    show ?thesis
      using run rec tr' ec' r' cb tr1 tr2 tr3 ec1 ec2 er1 er2 dr2 r1
      by (auto simp: bs)
  qed
qed

lemma enter_flash_mode_ok:
  assumes "fst (target_enter_flash_mode e t w)"
  shows "\<exists>t1 w1 evs. target_enter_flash_mode e t w = (True, t1, w1) \<and> flash t1 = flash t
     \<and> trace w1 = trace w @ evs \<and> erase_calls evs = [] \<and> erase_results evs = []
     \<and> done_results evs = []"
  using assms
  by (auto simp: target_enter_flash_mode_def call_hook_def call_reset_def
      split: if_splits option.splits prod.splits)

lemma target_flash_erase_single_region:
  assumes "len \<noteq> 0" and "range_in_region t i addr len" and "pow2 (blocksize (flash t ! i))"
    and "fst (target_enter_flash_mode e t w)" and "prepare_succeeds (flash t ! i)"
  shows "\<exists>r t' w' evs. target_flash_erase e t addr len w = Some (r, t', w')
        \<and> trace w' = trace w @ evs
        \<and> erase_calls evs = covering_blocks i (blocksize (flash t ! i)) addr len
        \<and> r = (False \<notin> set (erase_results evs) \<and> False \<notin> set (done_results evs))"
proof -
  from enter_flash_mode_ok[OF assms(4)] obtain t1 w1 evs0 where
    en: "target_enter_flash_mode e t w = (True, t1, w1)" and fl: "flash t1 = flash t" and
    tr0: "trace w1 = trace w @ evs0" and o0: "erase_calls evs0 = []" "erase_results evs0 = []"
      "done_results evs0 = []"
    by blast
  have rng: "range_in_region t1 i addr len"
    using assms(2) by (simp add: range_in_region_def target_flash_for_addr_def fl)
  from erase_loop_single_region[OF assms(1) rng, of True w1] assms(3,5) fl
  obtain r t' w' evs where
    run: "erase_loop t1 addr len True w1 = Some (r, t', w')" and tr: "trace w' = trace w1 @ evs" and
    ec: "erase_calls evs = covering_blocks i (blocksize (flash t ! i)) addr len" and
    r: "r = (True \<and> False \<notin> set (erase_results evs) \<and> False \<notin> set (done_results evs))"
    by auto
  have "target_flash_erase e t addr len w = Some (r, t', w')"
    by (simp add: target_flash_erase_def en run)
  moreover have "trace w' = trace w @ (evs0 @ evs)" by (simp add: tr tr0)
  ultimately show ?thesis using ec r o0 by (intro exI[of _ r] exI[of _ t'] exI[of _ w'] exI[of _ "evs0 @ evs"]) simp
qed

lemma new_events_Some: "trace w' = trace w @ evs \<Longrightarrow> new_events w (Some (r, t', w')) = evs"
  by (simp add: new_events_def)

section \<open>Erase: which blocks are erased\<close>

lemma range_in_region_A:
  "range_in_region (t\<lparr>flash := [f\<lparr>start := 0x08000000, length_f := 0x1000\<rparr>]\<rparr>) 0 0x080003F0 0x420"
  unfolding range_in_region_def target_flash_for_addr_def
proof (intro allI impI)
  fix a :: "32 word"
  assume "0x080003F0 \<le> a \<and> unat a < unat (0x080003F0 :: 32 word) + unat (0x420 :: 32 word)"
  then have "(0x08000000 :: 32 word) \<le> a \<and> a < 0x08001000"
    by (simp add: word_le_nat_alt word_less_nat_alt)
  then show "flash_for_addr_from 0
        (flash (t\<lparr>flash := [f\<lparr>start := 0x08000000, length_f := 0x1000\<rparr>]\<rparr>)) a = Some 0"
    by (simp add: contains_addr_def)
qed

lemma pow2_0x400: "pow2 0x400"
  unfolding pow2_def by (rule bexI[of _ 10]) simp_all

text \<open>
  Claim C2, as stated, fails when \<open>target_enter_flash_mode\<close> or the region's
  \<open>flash_prepare\<close> fails: the call returns false before any erase call, although the
  range lies in one region with a power-of-two block size.  Here the enter hook fails.
\<close>

theorem erase_enter_failure_counterexample:
  "range_in_region (target_A\<lparr>enter_flash_mode := Some hook_fail\<rparr>) 0 0x080003F0 0x420
   \<and> pow2 (blocksize (flash (target_A\<lparr>enter_flash_mode := Some hook_fail\<rparr>) ! 0))
   \<and> returned (target_flash_erase env_A (target_A\<lparr>enter_flash_mode := Some hook_fail\<rparr>)
                  0x080003F0 0x420 world_0) = Some False
   \<and> erase_calls (new_events world_0
         (target_flash_erase env_A (target_A\<lparr>enter_flash_mode := Some hook_fail\<rparr>)
            0x080003F0 0x420 world_0)) = []
   \<and> covering_blocks 0 0x400 0x080003F0 0x420
       = [(0, 0x08000000, 0x400), (0, 0x08000400, 0x400), (0, 0x08000800, 0x400)]"
proof -
  have "range_in_region (target_A\<lparr>enter_flash_mode := Some hook_fail\<rparr>) 0 0x080003F0 0x420"
    using range_in_region_A[where t = "target_A\<lparr>enter_flash_mode := Some hook_fail\<rparr>" and f = region_A]
    by (simp add: target_A_def region_A_def)
  then show ?thesis
    using pow2_0x400
    by (simp add: ex_defs run_defs new_events_def covering_blocks_def erase_calls_def)
qed

text \<open>
  Claim C2, amended.  For an erase request \<open>(addr, len)\<close> with \<open>len > 0\<close> all of whose
  addresses resolve to region \<open>i\<close>, whose block size is a power of two, provided
  \<open>target_enter_flash_mode\<close> succeeds and \<open>flash_prepare\<close> of the region cannot fail:
  \<open>target_flash_erase\<close> returns, and its calls of the erase primitive are exactly one call
  per block meeting \<open>[addr, addr + len)\<close>, in ascending order, each on region \<open>i\<close> with the
  block's aligned start address and the length \<open>blocksize\<close>.
\<close>

theorem target_flash_erase_covering_blocks:
  assumes "len \<noteq> 0" and "range_in_region t i addr len" and "pow2 (blocksize (flash t ! i))"
    and "fst (target_enter_flash_mode e t w)" and "prepare_succeeds (flash t ! i)"
  shows "target_flash_erase e t addr len w \<noteq> None
       \<and> erase_calls (new_events w (target_flash_erase e t addr len w))
           = covering_blocks i (blocksize (flash t ! i)) addr len"
  using target_flash_erase_single_region[OF assms] by (auto simp: new_events_Some)

lemma target_A_hyps:
  "range_in_region target_A 0 0x080003F0 0x420"
  "pow2 (blocksize (flash target_A ! 0))"
  "fst (target_enter_flash_mode env_A target_A world_0)"
  "prepare_succeeds (flash target_A ! 0)"
proof -
  show "range_in_region target_A 0 0x080003F0 0x420"
    using range_in_region_A[where t = target_A and f = region_A] by (simp add: target_A_def region_A_def)
  show "pow2 (blocksize (flash target_A ! 0))"
    using pow2_0x400 by (simp add: target_A_def region_A_def)
  show "fst (target_enter_flash_mode env_A target_A world_0)"
    by (simp add: ex_defs target_enter_flash_mode_def call_hook_def)
  show "prepare_succeeds (flash target_A ! 0)"
    by (simp add: prepare_succeeds_def target_A_def region_A_def hook_ok_def)
qed

theorem target_flash_erase_covering_blocks_witness:
  "(0x420 :: 32 word) \<noteq> 0
   \<and> range_in_region target_A 0 0x080003F0 0x420
   \<and> pow2 (blocksize (flash target_A ! 0))
   \<and> fst (target_enter_flash_mode env_A target_A world_0)
   \<and> prepare_succeeds (flash target_A ! 0)
   \<and> erase_calls (new_events world_0 (target_flash_erase env_A target_A 0x080003F0 0x420 world_0))
       = [(0, 0x08000000, 0x400), (0, 0x08000400, 0x400), (0, 0x08000800, 0x400)]"
proof -
  have nz: "(0x420 :: 32 word) \<noteq> 0" by simp
  have cb: "covering_blocks 0 (blocksize (flash target_A ! 0)) 0x080003F0 0x420
       = [(0, 0x08000000, 0x400), (0, 0x08000400, 0x400), (0, 0x08000800, 0x400)]"
    by (simp add: covering_blocks_def target_A_def region_A_def)
  from target_flash_erase_covering_blocks[OF nz target_A_hyps] cb
  show ?thesis using nz target_A_hyps by simp
qed

section \<open>Erase: failures of the erase primitive\<close>

text \<open>
  Claim C8, as stated, fails on the returned value: the results of \<open>flash_done\<close> are
  accumulated into it as well.  Here the only block erase succeeds, the done hook of the
  final retire fails, and \<open>target_flash_erase\<close> returns false.
\<close>

theorem erase_done_failure_counterexample:
  "returned (target_flash_erase env_A
               (target_A\<lparr>flash := [region_A\<lparr>done_f := Some hook_fail\<rparr>]\<rparr>)
               0x08000010 0x10 world_0) = Some False
   \<and> erase_results (new_events world_0
         (target_flash_erase env_A
            (target_A\<lparr>flash := [region_A\<lparr>done_f := Some hook_fail\<rparr>]\<rparr>)
            0x08000010 0x10 world_0)) = [True]"
  by (simp add: ex_defs run_defs new_events_def erase_results_def)

text \<open>
  Claim C8, amended.  Under the conditions of the amended claim C2 and for any behaviour
  of the erase primitive: \<open>target_flash_erase\<close> returns, every block meeting the range is
  erased once, whatever the earlier erase calls returned, and the value returned is the
  conjunction of the results of all these erase calls and of the results of the
  \<open>flash_done\<close> calls (the done hook).
\<close>

theorem target_flash_erase_aggregates:
  assumes "len \<noteq> 0" and "range_in_region t i addr len" and "pow2 (blocksize (flash t ! i))"
    and "fst (target_enter_flash_mode e t w)" and "prepare_succeeds (flash t ! i)"
  shows "erase_calls (new_events w (target_flash_erase e t addr len w))
           = covering_blocks i (blocksize (flash t ! i)) addr len
       \<and> length (erase_results (new_events w (target_flash_erase e t addr len w)))
           = length (covering_blocks i (blocksize (flash t ! i)) addr len)
       \<and> returned (target_flash_erase e t addr len w)
           = Some (False \<notin> set (erase_results (new_events w (target_flash_erase e t addr len w)))
                   \<and> False \<notin> set (done_results
                                     (new_events w (target_flash_erase e t addr len w))))"
proof -
  from target_flash_erase_single_region[OF assms] obtain r t' w' evs where
    run: "target_flash_erase e t addr len w = Some (r, t', w')" and
    tr: "trace w' = trace w @ evs" and
    ec: "erase_calls evs = covering_blocks i (blocksize (flash t ! i)) addr len" and
    r: "r = (False \<notin> set (erase_results evs) \<and> False \<notin> set (done_results evs))"
    by blast
  have ne: "new_events w (target_flash_erase e t addr len w) = evs"
    by (simp add: run new_events_Some[OF tr])
  show ?thesis
    unfolding ne using ec r obs_length[of evs] by (simp add: run returned_def)
qed

theorem target_flash_erase_aggregates_witness:
  "(0x420 :: 32 word) \<noteq> 0
   \<and> range_in_region target_A_efail 0 0x080003F0 0x420
   \<and> pow2 (blocksize (flash target_A_efail ! 0))
   \<and> fst (target_enter_flash_mode env_A target_A_efail world_0)
   \<and> prepare_succeeds (flash target_A_efail ! 0)
   \<and> erase_calls (new_events world_0
        (target_flash_erase env_A target_A_efail 0x080003F0 0x420 world_0))
       = [(0, 0x08000000, 0x400), (0, 0x08000400, 0x400), (0, 0x08000800, 0x400)]
   \<and> erase_results (new_events world_0
        (target_flash_erase env_A target_A_efail 0x080003F0 0x420 world_0))
       = [False, True, True]
   \<and> returned (target_flash_erase env_A target_A_efail 0x080003F0 0x420 world_0) = Some False"
proof -
  have nz: "(0x420 :: 32 word) \<noteq> 0" by simp
  have h: "range_in_region target_A_efail 0 0x080003F0 0x420"
    "pow2 (blocksize (flash target_A_efail ! 0))"
    "fst (target_enter_flash_mode env_A target_A_efail world_0)"
    "prepare_succeeds (flash target_A_efail ! 0)"
  proof -
    show "range_in_region target_A_efail 0 0x080003F0 0x420"
      using range_in_region_A[where t = target_A and f = "region_A\<lparr>erase := erase_first_fails\<rparr>"]
      by (simp add: target_A_efail_def target_A_def region_A_def)
    show "pow2 (blocksize (flash target_A_efail ! 0))"
      using pow2_0x400 by (simp add: target_A_efail_def target_A_def region_A_def)
    show "fst (target_enter_flash_mode env_A target_A_efail world_0)"
      by (simp add: target_A_efail_def ex_defs target_enter_flash_mode_def call_hook_def)
    show "prepare_succeeds (flash target_A_efail ! 0)"
      by (simp add: prepare_succeeds_def target_A_efail_def target_A_def region_A_def hook_ok_def)
  qed
  have ev: "erase_results (new_events world_0
        (target_flash_erase env_A target_A_efail 0x080003F0 0x420 world_0))
       = [False, True, True]"
    by (simp add: target_A_efail_def erase_first_fails_def ex_defs run_defs new_events_def
          erase_results_def)
  have cb: "covering_blocks 0 (blocksize (flash target_A_efail ! 0)) 0x080003F0 0x420
       = [(0, 0x08000000, 0x400), (0, 0x08000400, 0x400), (0, 0x08000800, 0x400)]"
    by (simp add: covering_blocks_def target_A_efail_def target_A_def region_A_def)
  from target_flash_erase_aggregates[OF nz h] cb ev
  show ?thesis using nz h by simp
qed

section \<open>Write: other regions are flushed and retired first\<close>

lemma exclusive_append:
  "exclusive n st (xs @ ys) = (exclusive n st xs \<and> exclusive n (foldl monitor_step st xs) ys)"
  by (induction xs arbitrary: st) auto

lemma quiet_exclusive: "list_all (\<lambda>e. \<not> copies e) evs \<Longrightarrow> exclusive n st evs"
proof (induction evs arbitrary: st)
  case Nil
  show ?case by simp
next
  case (Cons e evs)
  then show ?case by (cases e) simp_all
qed

lemma quiet_step_retired:
  "\<not> copies e \<Longrightarrow> st j = Retired \<Longrightarrow> monitor_step st e j = Retired"
  by (cases e) auto

lemma quiet_keeps_retired:
  "list_all (\<lambda>e. \<not> copies e) evs \<Longrightarrow> st j = Retired \<Longrightarrow> foldl monitor_step st evs j = Retired"
proof (induction evs arbitrary: st)
  case Nil
  then show ?case by simp
next
  case (Cons e evs)
  from Cons.prems have a: "monitor_step st e j = Retired" by (simp add: quiet_step_retired)
  from Cons.prems have b: "list_all (\<lambda>e. \<not> copies e) evs" by simp
  from Cons.IH[of "monitor_step st e", OF b a] show ?case by simp
qed

lemma neutral_state:
  "list_all (\<lambda>e. ev_region e = None) evs \<Longrightarrow> foldl monitor_step st evs = st"
proof (induction evs arbitrary: st)
  case Nil
  show ?case by simp
next
  case (Cons e evs)
  then show ?case by (cases e) simp_all
qed

lemma neutral_quiet: "list_all (\<lambda>e. ev_region e = None) evs \<Longrightarrow> list_all (\<lambda>e. \<not> copies e) evs"
proof (induction evs)
  case Nil
  show ?case by simp
next
  case (Cons e evs)
  then show ?case by (cases e) simp_all
qed

lemma own_region_exclusive:
  assumes "list_all (\<lambda>e. ev_region e = None \<or> ev_region e = Some i) evs"
    and "\<forall>j<n. j \<noteq> i \<longrightarrow> st j = Retired"
  shows "exclusive n st evs \<and> (\<forall>j<n. j \<noteq> i \<longrightarrow> foldl monitor_step st evs j = Retired)"
  using assms
proof (induction evs arbitrary: st)
  case Nil
  then show ?case by simp
next
  case (Cons e evs)
  have al: "ev_allowed n st e"
    using Cons.prems by (cases e) (auto simp: list_all_iff)
  have st': "\<forall>j<n. j \<noteq> i \<longrightarrow> monitor_step st e j = Retired"
    using Cons.prems by (cases e) auto
  from Cons.IH[OF _ st'] Cons.prems(1) al show ?case by simp
qed

text \<open>The shape of the events of the internal routines.\<close>

lemma flush_loop_neutral:
  assumes "flush_loop f i b a s len ret w = Some y"
  shows "\<exists>evs. trace (snd y) = trace w @ evs \<and> list_all (\<lambda>e. ev_region e = None) evs"
proof (rule flush_loop.raw_induct
    [where P = "\<lambda>f i b a s len ret w y.
                  \<exists>evs. trace (snd y) = trace w @ evs \<and> list_all (\<lambda>e. ev_region e = None) evs",
     OF _ assms], goal_cases)
  case (1 loop f i b a s len ret w y)
  show ?case
  proof (cases "len = 0")
    case True
    with 1(2) show ?thesis by auto
  next
    case False
    with 1(2) obtain bs r w1 where
      cw: "call_write f i a bs (writesize f) w = (r, w1)" and
      rec: "loop f i b (a + writesize f) (s + unat (writesize f))
              (len - min len (writesize f)) (ret \<and> r = 0) w1 = Some y"
      by (auto split: option.splits prod.splits)
    from cw have "trace w1 = trace w @ [Write i a bs (writesize f) r]"
      by (auto simp: call_write_def split: prod.splits)
    with 1(1)[OF rec] show ?thesis by auto
  qed
qed

lemma flush_shape:
  assumes "flash_buffered_flush f j w = Some (r, f', w')"
  shows "\<exists>evs. trace w' = trace w @ CallFlush j # evs \<and> list_all (\<lambda>e. ev_region e = None) evs"
proof (cases "flush_active f")
  case False
  with assms show ?thesis
    by (auto simp: flash_buffered_flush_def flash_buffered_flush_body_def)
next
  case True
  obtain ok f1 w1 where p: "flash_prepare f j (log (CallFlush j) w) = (ok, f1, w1)"
    by (cases "flash_prepare f j (log (CallFlush j) w)") auto
  then have "\<exists>evs. trace w1 = trace w @ CallFlush j # evs \<and> list_all (\<lambda>e. ev_region e = None) evs"
    by (auto simp: flash_prepare_def call_hook_def split: if_splits option.splits prod.splits)
  then obtain e1 where e1: "trace w1 = trace w @ CallFlush j # e1"
    "list_all (\<lambda>e. ev_region e = None) e1" by blast
  show ?thesis
  proof (cases ok)
    case False
    with assms True p e1 show ?thesis
      by (auto simp: flash_buffered_flush_def flash_buffered_flush_body_def)
  next
    case ok: True
    with assms True p obtain b ret w2 where
      "flush_loop f1 j b (buf_addr_low f1 AND NOT (writesize f1 - 1))
         (unat ((buf_addr_low f1 AND NOT (writesize f1 - 1)) - buf_addr_base f1))
         (buf_addr_high f1 - (buf_addr_low f1 AND NOT (writesize f1 - 1))) True
           (log (FlushRange j (buf_addr_low f1) (buf_addr_high f1)) w1)
       = Some (ret, w2)" "w' = w2"
      by (auto simp: flash_buffered_flush_def flash_buffered_flush_body_def Let_def
          split: option.splits)
    from flush_loop_neutral[OF this(1)] this(2) e1 show ?thesis by auto
  qed
qed

lemma done_shape:
  assumes "flash_done f j w = (r, f', w')"
  shows "\<exists>evs. trace w' = trace w @ CallDone j # evs \<and> list_all (\<lambda>e. ev_region e = None) evs"
  using assms
  by (auto simp: flash_done_def flash_done_body_def call_hook_def log_def
      split: if_splits option.splits prod.splits)

lemma flush_done_retires:
  assumes "flash_buffered_flush f j w = Some (rf, f1, w1)" and "flash_done f1 j w1 = (rd, f2, w2)"
  shows "\<exists>evs. trace w2 = trace w @ evs \<and> list_all (\<lambda>e. \<not> copies e) evs
           \<and> (\<forall>st. foldl monitor_step st evs j = Retired)"
proof -
  from flush_shape[OF assms(1)] obtain n1 where
    n1: "trace w1 = trace w @ CallFlush j # n1" "list_all (\<lambda>e. ev_region e = None) n1" by blast
  from done_shape[OF assms(2)] obtain n2 where
    n2: "trace w2 = trace w1 @ CallDone j # n2" "list_all (\<lambda>e. ev_region e = None) n2" by blast
  let ?evs = "CallFlush j # n1 @ CallDone j # n2"
  have "trace w2 = trace w @ ?evs" by (simp add: n1 n2)
  moreover have "list_all (\<lambda>e. \<not> copies e) ?evs"
    using neutral_quiet[OF n1(2)] neutral_quiet[OF n2(2)] by simp
  moreover have "foldl monitor_step st ?evs j = Retired" for st
    by (cases "st j") (simp_all add: neutral_state[OF n1(2)] neutral_state[OF n2(2)])
  ultimately show ?thesis by blast
qed

lemma write_flush_others_retires:
  assumes "write_flush_others k i fs ret w = Some (r, fs', w')"
  shows "length fs' = length fs \<and>
     (\<exists>evs. trace w' = trace w @ evs \<and> list_all (\<lambda>e. \<not> copies e) evs
        \<and> (\<forall>st j. k \<le> j \<and> j < k + length fs \<and> j \<noteq> i \<longrightarrow> foldl monitor_step st evs j = Retired))"
  using assms
proof (induction fs arbitrary: k ret w r fs' w')
  case Nil
  then show ?case by auto
next
  case (Cons f fs)
  show ?case
  proof (cases "k = i")
    case True
    with Cons.prems obtain fs3 where
      rec: "write_flush_others (Suc k) i fs ret w = Some (r, fs3, w')" and fs': "fs' = f # fs3"
      by (auto split: option.splits)
    from Cons.IH[OF rec] obtain evs where
      l: "length fs3 = length fs" and
      e: "trace w' = trace w @ evs" "list_all (\<lambda>e. \<not> copies e) evs"
        "\<forall>st j. Suc k \<le> j \<and> j < Suc k + length fs \<and> j \<noteq> i \<longrightarrow> foldl monitor_step st evs j = Retired"
      by blast
    have "foldl monitor_step st evs j = Retired"
      if "k \<le> j \<and> j < k + length (f # fs) \<and> j \<noteq> i" for st j
    proof -
      from that True have "Suc k \<le> j \<and> j < Suc k + length fs \<and> j \<noteq> i" by auto
      with e(3) show ?thesis by blast
    qed
    then have "\<forall>st j. k \<le> j \<and> j < k + length (f # fs) \<and> j \<noteq> i \<longrightarrow> foldl monitor_step st evs j = Retired"
      by blast
    with l e(1,2) fs' show ?thesis by auto
  next
    case False
    with Cons.prems obtain rf f1 w1 rd f2 w2 fs3 where
      fl: "flash_buffered_flush f k w = Some (rf, f1, w1)" and
      dn: "flash_done f1 k w1 = (rd, f2, w2)" and
      rec: "write_flush_others (Suc k) i fs ((ret \<and> rf) \<and> rd) w2 = Some (r, fs3, w')" and
      fs': "fs' = f2 # fs3"
      by (auto split: option.splits prod.splits)
    from flush_done_retires[OF fl dn] obtain e1 where
      e1: "trace w2 = trace w @ e1" "list_all (\<lambda>e. \<not> copies e) e1"
        "\<forall>st. foldl monitor_step st e1 k = Retired"
      by blast
    from Cons.IH[OF rec] obtain evs where
      l: "length fs3 = length fs" and
      e: "trace w' = trace w2 @ evs" "list_all (\<lambda>e. \<not> copies e) evs"
        "\<forall>st j. Suc k \<le> j \<and> j < Suc k + length fs \<and> j \<noteq> i \<longrightarrow> foldl monitor_step st evs j = Retired"
      by blast
    have "foldl monitor_step st (e1 @ evs) j = Retired"
      if "k \<le> j \<and> j < k + length (f # fs) \<and> j \<noteq> i" for st j
    proof (cases "j = k")
      case True
      then show ?thesis
        using quiet_keeps_retired[OF e(2), of "foldl monitor_step st e1" k] e1(3) by simp
    next
      case False
      with that have "Suc k \<le> j \<and> j < Suc k + length fs \<and> j \<noteq> i" by auto
      with e(3) show ?thesis by simp
    qed
    moreover have "trace w' = trace w @ (e1 @ evs)" by (simp add: e(1) e1(1))
    moreover have "list_all (\<lambda>e. \<not> copies e) (e1 @ evs)" using e1(2) e(2) by simp
    ultimately show ?thesis using l fs' by (intro conjI exI[of _ "e1 @ evs"]) auto
  qed
qed

lemma own_region_neutral:
  "list_all (\<lambda>e. ev_region e = None) evs \<Longrightarrow>
     list_all (\<lambda>e. ev_region e = None \<or> ev_region e = Some i) evs"
  by (simp add: list_all_iff)

lemma flush_own_region:
  assumes "flash_buffered_flush f i w = Some (r, f', w')"
  shows "\<exists>evs. trace w' = trace w @ evs
           \<and> list_all (\<lambda>e. ev_region e = None \<or> ev_region e = Some i) evs"
proof -
  from flush_shape[OF assms] obtain n1 where
    "trace w' = trace w @ CallFlush i # n1" "list_all (\<lambda>e. ev_region e = None) n1" by blast
  then show ?thesis using own_region_neutral[of n1 i] by auto
qed

lemma done_own_region:
  assumes "flash_done f i w = (r, f', w')"
  shows "\<exists>evs. trace w' = trace w @ evs
           \<and> list_all (\<lambda>e. ev_region e = None \<or> ev_region e = Some i) evs"
proof -
  from done_shape[OF assms] obtain n1 where
    "trace w' = trace w @ CallDone i # n1" "list_all (\<lambda>e. ev_region e = None) n1" by blast
  then show ?thesis using own_region_neutral[of n1 i] by auto
qed

lemma bw_setup_own_region:
  assumes "bw_setup f i dest ret w = Some (r, f', w')"
  shows "\<exists>evs. trace w' = trace w @ evs
           \<and> list_all (\<lambda>e. ev_region e = None \<or> ev_region e = Some i) evs"
proof (cases "bw_base_addr f dest \<noteq> buf_addr_base f")
  case False
  with assms show ?thesis by (auto simp: bw_setup_def)
next
  case True
  with assms obtain rf f1 w1 where
    fl: "flash_buffered_flush f i w = Some (rf, f1, w1)" and
    w': "w' = log (Memset i (erased f1) (writebufsize f1)) w1"
    by (auto simp: bw_setup_def split: option.splits)
  from flush_own_region[OF fl] w' show ?thesis by auto
qed

lemma bw_copy_own_region:
  assumes "bw_copy f i dest src len w = Some (f', w')"
  shows "\<exists>evs. trace w' = trace w @ evs
           \<and> list_all (\<lambda>e. ev_region e = None \<or> ev_region e = Some i) evs"
  using assms by (auto simp: bw_copy_def split: if_splits option.splits)

lemma buffered_write_loop_own_region:
  assumes "buffered_write_loop f i dest src len ret w = Some y"
  shows "\<exists>evs. trace (snd (snd y)) = trace w @ evs
           \<and> list_all (\<lambda>e. ev_region e = None \<or> ev_region e = Some i) evs"
proof (rule buffered_write_loop.raw_induct
    [where P = "\<lambda>f i dest src len ret w y.
       \<exists>evs. trace (snd (snd y)) = trace w @ evs
           \<and> list_all (\<lambda>e. ev_region e = None \<or> ev_region e = Some i) evs",
     OF _ assms], goal_cases)
  case (1 loop f i dest src len ret w y)
  show ?case
  proof (cases "len = 0")
    case True
    with 1(2) show ?thesis by auto
  next
    case False
    with 1(2) obtain ret1 f1 w1 f2 w2 where
      s: "bw_setup f i dest ret w = Some (ret1, f1, w1)" and
      c: "bw_copy f1 i dest src len w1 = Some (f2, w2)" and
      rec: "loop f2 i (dest + bw_local_len f1 dest len)
              (drop (unat (bw_local_len f1 dest len)) src)
              (len - bw_local_len f1 dest len) ret1 w2 = Some y"
      by (auto split: option.splits prod.splits)
    from bw_setup_own_region[OF s] bw_copy_own_region[OF c] 1(1)[OF rec]
    show ?thesis by auto
  qed
qed

lemma buffered_write_own_region:
  assumes "flash_buffered_write e f i dest src len w = Some (r, f', w')"
  shows "\<exists>evs. trace w' = trace w @ evs
           \<and> list_all (\<lambda>e. ev_region e = None \<or> ev_region e = Some i) evs"
proof (cases "buf f")
  case (Some b)
  with assms have
    "buffered_write_loop f i dest src len True (log (CallBufferedWrite i) w) = Some (r, f', w')"
    by (simp add: flash_buffered_write_def)
  from buffered_write_loop_own_region[OF this] show ?thesis by auto
next
  case None
  obtain mb w1 where m: "call_malloc e i (writebufsize f) (log (CallBufferedWrite i) w) = (mb, w1)"
    by (cases "call_malloc e i (writebufsize f) (log (CallBufferedWrite i) w)") auto
  then have t1: "\<exists>ok. trace w1 = trace w @ [CallBufferedWrite i, Malloc i (writebufsize f) ok]"
    by (auto simp: call_malloc_def log_def split: prod.splits option.splits)
  show ?thesis
  proof (cases mb)
    case None
    with assms m \<open>buf f = None\<close> t1 show ?thesis by (auto simp: flash_buffered_write_def)
  next
    case (Some b)
    with assms m \<open>buf f = None\<close> have "buffered_write_loop
           (f\<lparr>buf := Some b, buf_addr_base := UINT32_MAX, buf_addr_low := UINT32_MAX,
              buf_addr_high := 0\<rparr>) i dest src len True w1 = Some (r, f', w')"
      by (simp add: flash_buffered_write_def)
    from buffered_write_loop_own_region[OF this] t1 show ?thesis by auto
  qed
qed

lemma write_region_own_region:
  assumes "write_region e f i dest src len ret w = Some (r, f', w')"
  shows "\<exists>evs. trace w' = trace w @ evs
           \<and> list_all (\<lambda>e. ev_region e = None \<or> ev_region e = Some i) evs"
proof -
  from assms obtain rb f1 w1 where
    bw: "flash_buffered_write e f i dest src (write_local_end f dest len - dest) w
           = Some (rb, f1, w1)"
    by (auto simp: write_region_def split: option.splits)
  from buffered_write_own_region[OF bw] obtain e1 where
    e1: "trace w1 = trace w @ e1" "list_all (\<lambda>e. ev_region e = None \<or> ev_region e = Some i) e1"
    by blast
  show ?thesis
  proof (cases "write_local_end f dest len = start f1 + length_f f1")
    case False
    with assms bw e1 show ?thesis by (auto simp: write_region_def)
  next
    case True
    with assms bw obtain rf f2 w2 rd where
      fl: "flash_buffered_flush f1 i w1 = Some (rf, f2, w2)" and
      dn: "flash_done f2 i w2 = (rd, f', w')"
      by (auto simp: write_region_def split: option.splits prod.splits)
    from flush_own_region[OF fl] done_own_region[OF dn] e1 show ?thesis by auto
  qed
qed

lemma write_loop_exclusive:
  assumes "write_loop e t dest src len ret w = Some y"
  shows "\<exists>evs. trace (snd (snd y)) = trace w @ evs \<and> (\<forall>st. exclusive (length (flash t)) st evs)"
proof (rule write_loop.raw_induct
    [where P = "\<lambda>e t dest src len ret w y.
       \<exists>evs. trace (snd (snd y)) = trace w @ evs \<and> (\<forall>st. exclusive (length (flash t)) st evs)",
     OF _ assms], goal_cases)
  case (1 loop e t dest src len ret w y)
  show ?case
  proof (cases "len = 0 \<or> target_flash_for_addr t dest = None")
    case True
    with 1(2) show ?thesis by (auto split: if_splits)
  next
    case False
    then obtain i where i: "target_flash_for_addr t dest = Some i" and len: "len \<noteq> 0" by auto
    with 1(2) obtain ret1 fs1 w1 ret2 f1 w2 where
      o: "write_flush_others 0 i (flash t) ret w = Some (ret1, fs1, w1)" and
      wr: "write_region e (fs1 ! i) i dest src len ret1 w1 = Some (ret2, f1, w2)" and
      rec: "loop e (t\<lparr>flash := fs1[i := f1]\<rparr>) (write_local_end (fs1 ! i) dest len)
              (drop (unat (write_local_end (fs1 ! i) dest len - dest)) src)
              (len - (write_local_end (fs1 ! i) dest len - dest)) ret2 w2 = Some y"
      by (auto split: option.splits prod.splits)
    let ?n = "length (flash t)"
    from write_flush_others_retires[OF o] obtain e1 where
      l: "length fs1 = ?n" and e1: "trace w1 = trace w @ e1" "list_all (\<lambda>e. \<not> copies e) e1"
        "\<forall>st j. j < ?n \<and> j \<noteq> i \<longrightarrow> foldl monitor_step st e1 j = Retired"
      by auto
    from write_region_own_region[OF wr] obtain e2 where
      e2: "trace w2 = trace w1 @ e2"
        "list_all (\<lambda>e. ev_region e = None \<or> ev_region e = Some i) e2"
      by blast
    from 1(1)[OF rec] l obtain e3 where
      e3: "trace (snd (snd y)) = trace w2 @ e3" "\<forall>st. exclusive ?n st e3"
      by auto
    have "exclusive ?n st (e1 @ e2 @ e3)" for st
    proof -
      have a: "exclusive ?n st e1" using quiet_exclusive[OF e1(2)] .
      have "\<forall>j<?n. j \<noteq> i \<longrightarrow> foldl monitor_step st e1 j = Retired" using e1(3) by simp
      from own_region_exclusive[OF e2(2) this]
      have b: "exclusive ?n (foldl monitor_step st e1) e2" by simp
      show ?thesis using a b e3(2) by (simp add: exclusive_append)
    qed
    moreover have "trace (snd (snd y)) = trace w @ (e1 @ e2 @ e3)"
      by (simp add: e1(1) e2(1) e3(1))
    ultimately show ?thesis by blast
  qed
qed

lemma enter_flash_mode_neutral:
  assumes "target_enter_flash_mode e t w = (ok, t1, w1)"
  shows "length (flash t1) = length (flash t)
    \<and> (\<exists>evs. trace w1 = trace w @ evs \<and> list_all (\<lambda>e. ev_region e = None) evs)"
  using assms
  by (auto simp: target_enter_flash_mode_def call_hook_def call_reset_def
      split: if_splits option.splits prod.splits)

text \<open>
  Claim C3.  In the events of a \<open>target_flash_write\<close> call that returns, whenever
  \<open>flash_buffered_write\<close> is called on a region, and whenever bytes are copied into the
  buffer of a region, every other region of the target has had \<open>flash_buffered_flush\<close>
  and then \<open>flash_done\<close> called on it since bytes were last copied toward it, whatever
  the state of the regions before the call.
\<close>

theorem write_flushes_and_retires_others_first:
  assumes "target_flash_write e t dest src len w = Some (r, t', w')"
  shows "exclusive (length (flash t)) st (drop (length (trace w)) (trace w'))"
proof -
  obtain ok t1 w1 where en: "target_enter_flash_mode e t w = (ok, t1, w1)"
    by (cases "target_enter_flash_mode e t w") auto
  from enter_flash_mode_neutral[OF en] obtain e0 where
    l: "length (flash t1) = length (flash t)" and
    e0: "trace w1 = trace w @ e0" "list_all (\<lambda>e. ev_region e = None) e0"
    by blast
  have q0: "exclusive (length (flash t)) st e0"
    using quiet_exclusive[OF neutral_quiet[OF e0(2)]] .
  show ?thesis
  proof (cases ok)
    case False
    with assms en e0 q0 show ?thesis by (auto simp: target_flash_write_def)
  next
    case True
    with assms en have "write_loop e t1 dest src len True w1 = Some (r, t', w')"
      by (simp add: target_flash_write_def)
    from write_loop_exclusive[OF this] l obtain evs where
      "trace w' = trace w1 @ evs" "\<forall>st. exclusive (length (flash t)) st evs"
      by auto
    then show ?thesis using e0 q0 by (simp add: exclusive_append)
  qed
qed

lemma write_target_S:
  "result_trace (target_flash_write env_A target_S 0x100E [1, 2, 3, 4] 4 world_0) =
     Some [Reset, CallFlush 1, CallDone 1, CallBufferedWrite 0, Malloc 0 8 True,
           CallFlush 0, Memset 0 255 8, Memcpy 0 0x100E 6 [1, 2], CallFlush 0,
           Prepare 0 True, FlushRange 0 0x100E 0x1010,
           Write 0 0x100C [255, 255, 1, 2] 4 0, CallDone 0,
           Done 0 True, Free 0, CallFlush 0, CallDone 0, CallBufferedWrite 1,
           Malloc 1 8 True, CallFlush 1, Memset 1 255 8, Memcpy 1 0x1010 0 [3, 4]]"
  by (simp add: ex_defs run_defs)

theorem write_flushes_and_retires_others_first_witness:
  "result_trace (target_flash_write env_A target_S 0x100E [1, 2, 3, 4] 4 world_0) =
     Some [Reset, CallFlush 1, CallDone 1, CallBufferedWrite 0, Malloc 0 8 True,
           CallFlush 0, Memset 0 255 8, Memcpy 0 0x100E 6 [1, 2], CallFlush 0,
           Prepare 0 True, FlushRange 0 0x100E 0x1010,
           Write 0 0x100C [255, 255, 1, 2] 4 0, CallDone 0,
           Done 0 True, Free 0, CallFlush 0, CallDone 0, CallBufferedWrite 1,
           Malloc 1 8 True, CallFlush 1, Memset 1 255 8, Memcpy 1 0x1010 0 [3, 4]]
   \<and> exclusive 2 (\<lambda>j. Written)
        [Reset, CallFlush 1, CallDone 1, CallBufferedWrite 0, Malloc 0 8 True,
         CallFlush 0, Memset 0 255 8, Memcpy 0 0x100E 6 [1, 2], CallFlush 0,
         Prepare 0 True, FlushRange 0 0x100E 0x1010,
           Write 0 0x100C [255, 255, 1, 2] 4 0, CallDone 0,
         Done 0 True, Free 0, CallFlush 0, CallDone 0, CallBufferedWrite 1,
         Malloc 1 8 True, CallFlush 1, Memset 1 255 8, Memcpy 1 0x1010 0 [3, 4]]
   \<and> \<not> exclusive 2 (\<lambda>j. Written) [Memcpy 0 0x100E 6 [1, 2], CallBufferedWrite 1]"
proof -
  obtain r t' w' where
    run: "target_flash_write env_A target_S 0x100E [1, 2, 3, 4] 4 world_0 = Some (r, t', w')"
    and tr: "trace w' =
       [Reset, CallFlush 1, CallDone 1, CallBufferedWrite 0, Malloc 0 8 True,
        CallFlush 0, Memset 0 255 8, Memcpy 0 0x100E 6 [1, 2], CallFlush 0,
        Prepare 0 True, FlushRange 0 0x100E 0x1010,
           Write 0 0x100C [255, 255, 1, 2] 4 0, CallDone 0,
        Done 0 True, Free 0, CallFlush 0, CallDone 0, CallBufferedWrite 1,
        Malloc 1 8 True, CallFlush 1, Memset 1 255 8, Memcpy 1 0x1010 0 [3, 4]]"
    using write_target_S by (auto simp: result_trace_def)
  have n: "length (flash target_S) = 2" by (simp add: target_S_def)
  have w0: "trace world_0 = []" by (simp add: world_0_def)
  have bad: "\<not> exclusive 2 (\<lambda>j. Written) [Memcpy 0 0x100E 6 [1, 2], CallBufferedWrite 1]"
    by (simp add: numeral_2_eq_2)
  from write_flushes_and_retires_others_first[OF run, of "\<lambda>j. Written"]
  have "exclusive 2 (\<lambda>j. Written) (trace w')" by (simp add: n w0)
  then show ?thesis using write_target_S bad by (simp only: tr) simp
qed


section \<open>Write: the bytes copied from the source\<close>

lemma copied_bytes_append [simp]: "copied_bytes (xs @ ys) = copied_bytes xs @ copied_bytes ys"
  by (induction xs rule: copied_bytes.induct) simp_all

lemma copied_bytes_quiet: "list_all (\<lambda>e. \<not> copies e) evs \<Longrightarrow> copied_bytes evs = []"
proof (induction evs)
  case Nil
  show ?case by simp
next
  case (Cons e evs)
  then show ?case by (cases e) simp_all
qed

lemma copies_sound_Nil: "copied_bytes evs = [] \<Longrightarrow> copies_sound R dest src n evs"
  by (simp add: copies_sound_def)

lemma copies_all_Nil: "copied_bytes evs = [] \<Longrightarrow> copies_all dest 0 evs"
  by (simp add: copies_all_def)

lemma copies_sound_append:
  "copies_sound R dest src n (xs @ ys)
     = (copies_sound R dest src n xs \<and> copies_sound R dest src n ys)"
  by (simp add: copies_sound_def)

lemma copies_sound_mono:
  assumes "copies_sound R dest src n evs" and "n \<le> n'"
    and "\<And>j x. R j x \<Longrightarrow> unat (x - dest) < n \<Longrightarrow> R' j x"
  shows "copies_sound R' dest src n' evs"
  unfolding copies_sound_def list_all_iff
proof (intro ballI)
  fix y assume y: "y \<in> set (copied_bytes evs)"
  obtain j x v where yv: "y = (j, x, v)" by (cases y) auto
  from assms(1) y yv have R: "R j x" and o: "unat (x - dest) < n"
    and v: "v = src ! unat (x - dest)"
    unfolding copies_sound_def list_all_iff by auto
  from assms(3)[OF R o] o assms(2) v yv
  show "case y of (j, x, v) \<Rightarrow> R' j x \<and> unat (x - dest) < n' \<and> v = src ! unat (x - dest)"
    by simp
qed

lemma unat_shift:
  fixes x dest :: "32 word"
  assumes "unat (x - (dest + word_of_nat n)) + n < 2 ^ 32"
  shows "unat (x - dest) = unat (x - (dest + word_of_nat n)) + n"
proof -
  define y where "y = x - (dest + word_of_nat n)"
  define m :: "32 word" where "m = word_of_nat n"
  have n32: "n < 2 ^ 32" using assms by linarith
  then have un: "unat m = n" unfolding m_def by (simp add: unat_of_nat)
  have lt: "unat y + unat m < 2 ^ 32" using assms un by (simp add: y_def m_def)
  have "x - dest = y + m" by (simp add: y_def m_def)
  then have "unat (x - dest) = unat (y + m)" by simp
  also have "\<dots> = unat y + unat m" using lt by (intro unat_add_lem[THEN iffD1]) simp
  finally show ?thesis using un by (simp add: y_def)
qed

lemma copies_sound_shift:
  assumes "copies_sound R (dest + word_of_nat n) (drop n src) (len - n) evs"
    and "n \<le> len" and "len < 2 ^ 32" and "n \<le> length src"
  shows "copies_sound R dest src len evs"
  unfolding copies_sound_def list_all_iff
proof (intro ballI)
  fix y assume y: "y \<in> set (copied_bytes evs)"
  obtain j x v where yv: "y = (j, x, v)" by (cases y) auto
  let ?o = "unat (x - (dest + word_of_nat n))"
  from assms(1) y yv have R: "R j x" and o: "?o < len - n" and v: "v = drop n src ! ?o"
    unfolding copies_sound_def list_all_iff by auto
  have "?o + n < 2 ^ 32" using o assms(2,3) by linarith
  then have u: "unat (x - dest) = ?o + n" by (rule unat_shift)
  have "v = src ! (n + ?o)" using v assms(4) by simp
  with R o u yv show "case y of (j, x, v) \<Rightarrow>
      R j x \<and> unat (x - dest) < len \<and> v = src ! unat (x - dest)"
    by (simp add: add.commute)
qed

lemma map_upt_shift:
  "map (\<lambda>k. (dest :: 32 word) + word_of_nat k) [n..<n + m]
     = map (\<lambda>k. dest + word_of_nat n + word_of_nat k) [0..<m]"
proof (rule nth_equalityI)
  show "length (map (\<lambda>k. dest + word_of_nat k) [n..<n + m])
      = length (map (\<lambda>k. dest + word_of_nat n + word_of_nat k) [0..<m])" by simp
next
  fix i assume "i < length (map (\<lambda>k. dest + word_of_nat k) [n..<n + m])"
  then have "i < m" by simp
  then show "map (\<lambda>k. dest + word_of_nat k) [n..<n + m] ! i
      = map (\<lambda>k. dest + word_of_nat n + word_of_nat k) [0..<m] ! i"
    by (simp add: add.assoc)
qed

lemma copies_all_append:
  assumes "copies_all dest n xs" and "copies_all (dest + word_of_nat n) m ys"
  shows "copies_all dest (n + m) (xs @ ys)"
proof -
  have "[0..<n + m] = [0..<n] @ [n..<n + m]" by (rule upt_add_eq_append) simp
  then have "map (\<lambda>k. dest + word_of_nat k) [0..<n + m]
      = map (\<lambda>k. dest + word_of_nat k) [0..<n]
        @ map (\<lambda>k. dest + word_of_nat n + word_of_nat k) [0..<m]"
    by (simp only: map_append map_upt_shift)
  then show ?thesis using assms by (simp add: copies_all_def)
qed
section \<open>Write: the bytes that reach the write primitive\<close>

lemma writes_ok_append:
  "writes_ok fs st (xs @ ys) = (writes_ok fs st xs \<and> writes_ok fs (foldl obs_step st xs) ys)"
  by (induction xs arbitrary: st) auto

lemma obs_quiet_step: "obs_quiet e \<Longrightarrow> obs_step st e = st \<and> write_ok fs st e"
  by (cases e) simp_all

lemma obs_quiet_list:
  "list_all obs_quiet evs \<Longrightarrow> foldl obs_step st evs = st \<and> writes_ok fs st evs"
  by (induction evs arbitrary: st) (simp_all add: obs_quiet_step)

lemma copied_bytes_obs_quiet: "list_all obs_quiet evs \<Longrightarrow> copied_bytes evs = []"
proof (induction evs)
  case Nil
  show ?case by simp
next
  case (Cons e evs)
  then show ?case by (cases e) simp_all
qed

lemma same_config_geometry:
  "same_config f g \<Longrightarrow> geometry_ok g = geometry_ok f"
  "same_config f g \<Longrightarrow> prepare_hook_ok g = prepare_hook_ok f"
  by (simp_all add: same_config_def geometry_ok_def prepare_hook_ok_def)

text \<open>Powers of two.\<close>

lemma pow2_unat: "pow2 x \<Longrightarrow> \<exists>k<32. x = 2 ^ k \<and> unat x = 2 ^ k"
  by (auto simp: pow2_def unat_2p)

lemma geometry_ok_exp:
  assumes "geometry_ok f"
  obtains j m where "j \<le> m" "m < 32" "writesize f = 2 ^ j" "writebufsize f = 2 ^ m"
    "unat (writesize f) = 2 ^ j" "unat (writebufsize f) = 2 ^ m"
proof -
  from assms obtain j m where j: "j < 32" "writesize f = 2 ^ j" "unat (writesize f) = 2 ^ j"
    and m: "m < 32" "writebufsize f = 2 ^ m" "unat (writebufsize f) = 2 ^ m"
    and le: "writesize f \<le> writebufsize f"
    unfolding geometry_ok_def using pow2_unat by metis
  from le have "(2::nat) ^ j \<le> 2 ^ m" using j(3) m(3) by (simp add: word_le_nat_alt)
  then have "j \<le> m" by simp
  with j m that show ?thesis by blast
qed

lemma dvd_gap:
  fixes off W P :: nat
  assumes "W dvd off" "W dvd P" "off < P"
  shows "off + W \<le> P"
proof -
  from assms(1,2) obtain a b where ab: "off = W * a" "P = W * b" unfolding dvd_def by blast
  with assms(3) have "a < b" by auto
  then have "Suc a \<le> b" by simp
  then have "W * Suc a \<le> W * b" by (rule mult_le_mono2)
  then show ?thesis using ab by simp
qed

lemma slice_Some: "off + n \<le> length b \<Longrightarrow> slice b off n = Some (take n (drop off b))"
  by (simp add: slice_def)

lemma flush_loop_0: "flush_loop f i b a off 0 ret w = Some (ret, w)"
  by (subst flush_loop.simps) simp

lemma unat_lt_32: "unat (x :: 32 word) < 2 ^ 32"
  using unsigned_less[of x] by simp

lemma flush_loop_total:
  assumes "0 < unat (writesize f)" and "unat (writesize f) dvd off"
    and "unat (writesize f) dvd length b" and "off + unat len \<le> length b"
    and "writesize (fs ! i) = writesize f"
    and "\<forall>k<length b. expected_byte (erased (fs ! i)) (st i) (base + word_of_nat k) (b ! k)"
    and "a = base + word_of_nat off"
    and "unat a + unat len \<le> 2 ^ 32"
    and "\<forall>x \<in> set (snd (fst (st i))). unat a \<le> unat x \<and> unat x < unat a + unat len"
    and "unat (writesize f) dvd unat a"
  shows "\<exists>r w' evs. flush_loop f i b a off len ret w = Some (r, w') \<and> trace w' = trace w @ evs
           \<and> writes_ok fs st evs
           \<and> foldl obs_step st evs = st(i := ((fst (fst (st i)), []), snd (st i)))
           \<and> copied_bytes evs = []"
  using assms
proof (induction "unat len" arbitrary: a off len ret w st rule: less_induct)
  case less
  let ?W = "unat (writesize f)"
  let ?p = "snd (fst (st i))"
  show ?case
  proof (cases "len = 0")
    case True
    with less.prems(9) have "?p = []" by (cases ?p) auto
    then have "st i = ((fst (fst (st i)), []), snd (st i))" by (simp add: prod_eq_iff)
    then have "st(i := ((fst (fst (st i)), []), snd (st i))) = st" by (simp add: fun_upd_idem)
    with True show ?thesis by (simp add: flush_loop_0)
  next
    case False
    then have lpos: "0 < unat len" by (simp add: unat_gt_0)
    with less.prems(4) have "off < length b" by simp
    from dvd_gap[OF less.prems(2,3) this] have inb: "off + ?W \<le> length b" .
    let ?bs = "take ?W (drop off b)"
    obtain r w1 where cw: "call_write f i a ?bs (writesize f) w = (r, w1)"
      by (cases "call_write f i a ?bs (writesize f) w") auto
    then have tr1: "trace w1 = trace w @ [Write i a ?bs (writesize f) r]"
      by (auto simp: call_write_def split: prod.splits)
    let ?e = "Write i a ?bs (writesize f) r"
    let ?len' = "len - min len (writesize f)"
    let ?a' = "a + writesize f"
    have wnz: "writesize f \<noteq> 0" using less.prems(1) by (simp add: unat_gt_0)
    have um: "unat (min len (writesize f)) = min (unat len) ?W"
      by (simp add: min_def word_le_nat_alt)
    have ul': "unat ?len' = unat len - min (unat len) ?W"
      by (simp add: unat_sub um)
    have smaller: "unat ?len' < unat len" using ul' lpos less.prems(1) by arith
    have bound': "off + ?W + unat ?len' \<le> length b"
      using ul' inb less.prems(4) by arith
    have dvd': "?W dvd off + ?W" using less.prems(2) by simp
    have a': "?a' = base + word_of_nat (off + ?W)"
      by (simp add: less.prems(7))
    have len_bs: "length ?bs = ?W" using inb by simp
    let ?p1 = "filter (\<lambda>x. \<not> unat (x - a) < ?W) ?p"
    let ?st1 = "st(i := ((fst (fst (st i)), ?p1), snd (st i)))"
    have st1: "obs_step st ?e = ?st1" by (simp only: obs_step.simps len_bs)
    have exp1: "\<forall>k<length b. expected_byte (erased (fs ! i)) (?st1 i) (base + word_of_nat k) (b ! k)"
    proof -
      have "expected_byte er (?st1 i) x v = expected_byte er (st i) x v" for er x v
        by (simp add: expected_byte_def)
      with less.prems(6) show ?thesis by (simp only:)
    qed
    have far: "unat a + ?W \<le> unat x \<and> unat x < unat a + unat len" if "x \<in> set ?p1" for x
    proof -
      from that have xp: "x \<in> set ?p" and nf: "\<not> unat (x - a) < ?W" by simp_all
      from less.prems(9) xp have ax: "unat a \<le> unat x" and xl: "unat x < unat a + unat len"
        by blast+
      from ax have "a \<le> x" by (simp add: word_le_nat_alt)
      then have "unat (x - a) = unat x - unat a" by (simp add: unat_sub)
      with nf ax xl show ?thesis by linarith
    qed
    have "\<exists>r' w' evs.
        flush_loop f i b ?a' (off + ?W) ?len' (ret \<and> r = 0) w1 = Some (r', w')
      \<and> trace w' = trace w1 @ evs \<and> writes_ok fs ?st1 evs
      \<and> foldl obs_step ?st1 evs = ?st1(i := ((fst (fst (?st1 i)), []), snd (?st1 i)))
      \<and> copied_bytes evs = []"
    proof (cases "unat len \<le> ?W")
      case True
      then have "unat ?len' = 0" using ul' by simp
      then have l0: "?len' = 0" by (simp add: unat_eq_0)
      have "x \<notin> set ?p1" for x
      proof
        assume "x \<in> set ?p1"
        from far[OF this] True show False by linarith
      qed
      then have "?p1 = []" by (cases ?p1) auto
      then have e: "?st1(i := ((fst (fst (?st1 i)), []), snd (?st1 i))) = ?st1" by simp
      have rn: "flush_loop f i b ?a' (off + ?W) ?len' (ret \<and> r = 0) w1
                  = Some (ret \<and> r = 0, w1)"
        unfolding l0 by (rule flush_loop_0)
      have "trace w1 = trace w1 @ []" "writes_ok fs ?st1 []" "copied_bytes [] = []"
        "foldl obs_step ?st1 [] = ?st1(i := ((fst (fst (?st1 i)), []), snd (?st1 i)))"
        using e by simp_all
      with rn show ?thesis by blast
    next
      case False
      then have "unat a + ?W < 2 ^ 32" using less.prems(8) by linarith
      then have ua: "unat ?a' = unat a + ?W" by (simp add: unat_add_lem[THEN iffD1])
      have ul2: "unat ?len' = unat len - ?W" using ul' False by simp
      have nowrap: "unat ?a' + unat ?len' \<le> 2 ^ 32" using ua ul2 False less.prems(8) by simp
      have cover: "\<forall>x \<in> set (snd (fst (?st1 i))).
          unat ?a' \<le> unat x \<and> unat x < unat ?a' + unat ?len'"
      proof
        fix x assume "x \<in> set (snd (fst (?st1 i)))"
        then have x: "x \<in> set ?p1" by simp
        from far[OF x] ua ul2 False
        show "unat ?a' \<le> unat x \<and> unat x < unat ?a' + unat ?len'" by linarith
      qed
      have al: "?W dvd unat ?a'" unfolding ua using less.prems(10) by simp
      show ?thesis
        using smaller less.prems(1) dvd' less.prems(3) bound' less.prems(5) exp1 a' nowrap cover al
        by (rule less.hyps)
    qed
    then obtain r' w' evs where
      rec: "flush_loop f i b ?a' (off + ?W) ?len' (ret \<and> r = 0) w1 = Some (r', w')"
      and tr': "trace w' = trace w1 @ evs" and ok': "writes_ok fs ?st1 evs"
      and st': "foldl obs_step ?st1 evs = ?st1(i := ((fst (fst (?st1 i)), []), snd (?st1 i)))"
      and cb': "copied_bytes evs = []"
      by blast
    have run: "flush_loop f i b a off len ret w = Some (r', w')"
      using False by (subst flush_loop.simps) (simp add: slice_Some[OF inb] cw rec)
    have "expected_byte (erased (fs ! i)) (st i) (a + word_of_nat k) (?bs ! k)" if "k < ?W" for k
    proof -
      have "off + k < length b" using that inb by simp
      with less.prems(6)
      have "expected_byte (erased (fs ! i)) (st i) (base + word_of_nat (off + k)) (b ! (off + k))"
        by blast
      moreover have "?bs ! k = b ! (off + k)" using that inb by simp
      ultimately show ?thesis by (simp add: less.prems(7) add.assoc)
    qed
    then have "list_all (\<lambda>k. expected_byte (erased (fs ! i)) (st i) (a + word_of_nat k) (?bs ! k))
        [0..<length ?bs]"
      unfolding len_bs by (simp add: list_all_iff)
    then have wok: "write_ok fs st ?e"
      using len_bs less.prems(10) by (simp only: write_ok.simps less.prems(5))
    let ?evs = "?e # evs"
    have t: "trace w' = trace w @ ?evs" by (simp add: tr' tr1)
    have o: "writes_ok fs st ?evs"
      unfolding writes_ok.simps st1 by (rule conjI[OF wok ok'])
    have s: "foldl obs_step st ?evs = st(i := ((fst (fst (st i)), []), snd (st i)))"
      unfolding foldl_Cons st1 st' by simp
    have c: "copied_bytes ?evs = []" using cb' by simp
    from run t o s c show ?thesis by blast
  qed
qed

lemma le_UINT32_MAX: "x \<le> UINT32_MAX"
  using unat_lt_32[of x] by (simp add: UINT32_MAX_def word_le_nat_alt)

lemma flash_prepare_hook_ok:
  assumes "prepare_hook_ok f"
  shows "\<exists>w1 evs. flash_prepare f i w = (True, f\<lparr>ready := True\<rparr>, w1)
           \<and> trace w1 = trace w @ evs \<and> list_all obs_quiet evs"
proof (cases "ready f")
  case True
  then show ?thesis by (simp add: flash_prepare_def)
next
  case False
  show ?thesis
  proof (cases "prepare f")
    case None
    with False show ?thesis by (simp add: flash_prepare_def)
  next
    case (Some h)
    with assms have "fst (h (dev w))" by (simp add: prepare_hook_ok_def)
    then obtain d where "h (dev w) = (True, d)" by (cases "h (dev w)") auto
    with False Some show ?thesis by (simp add: flash_prepare_def call_hook_def)
  qed
qed

lemma aligned_in_page:
  fixes B L W P :: nat
  assumes "0 < W" "W dvd P" "P dvd B" "B \<le> L"
  shows "B \<le> L div W * W" and "L div W * W \<le> L" and "W dvd L div W * W - B"
proof -
  have wb: "W dvd B" using assms(2,3) by (rule dvd_trans)
  then obtain c where c: "B = W * c" unfolding dvd_def by blast
  with assms(4) have "W * c \<le> L" by simp
  then have "c \<le> L div W" using assms(1) by (simp add: less_eq_div_iff_mult_less_eq mult.commute)
  then have "c * W \<le> L div W * W" by (rule mult_le_mono1)
  then show "B \<le> L div W * W" using c by (simp add: mult.commute)
  show "L div W * W \<le> L" by simp
  show "W dvd L div W * W - B" using wb by (simp add: dvd_diff_nat)
qed

lemma flush_total:
  assumes geo: "geometry_ok f" and ph: "prepare_hook_ok f" and inv: "buf_inv f (fst (st i))"
    and cfg: "same_config (fs ! i) f"
  shows "\<exists>r f' w' evs. flash_buffered_flush f i w = Some (r, f', w') \<and> trace w' = trace w @ evs
     \<and> writes_ok fs st evs \<and> (\<forall>j. j \<noteq> i \<longrightarrow> foldl obs_step st evs j = st j)
     \<and> fst (foldl obs_step st evs i) = (fst (fst (st i)), [])
     \<and> same_config f f' \<and> buf f' = buf f \<and> buf_inv f' (fst (foldl obs_step st evs i))
     \<and> (buf f \<noteq> None \<longrightarrow> buf_addr_low f' = UINT32_MAX \<and> buf_addr_high f' = 0)
     \<and> copied_bytes evs = []"
proof (cases "flush_active f")
  case False
  have run: "flash_buffered_flush f i w = Some (True, f, log (CallFlush i) w)"
    using False by (simp add: flash_buffered_flush_def flash_buffered_flush_body_def)
  have emp: "buf_addr_low f = UINT32_MAX \<and> buf_addr_high f = 0" if "buf f \<noteq> None"
  proof -
    from that obtain b where b: "buf f = Some b" by auto
    show ?thesis
    proof (cases "buf_addr_base f = UINT32_MAX")
      case True
      with inv b show ?thesis by (simp add: buf_inv_def)
    next
      case nb: False
      show ?thesis
      proof (rule ccontr)
        assume "\<not> ?thesis"
        with inv b nb have lt: "buf_addr_low f < buf_addr_high f" by (auto simp: buf_inv_def)
        have "buf_addr_high f \<le> UINT32_MAX" by (rule le_UINT32_MAX)
        with lt have "buf_addr_low f \<noteq> UINT32_MAX" by auto
        with lt b nb have "flush_active f" by (simp add: flush_active_def)
        with False show False by simp
      qed
    qed
  qed
  have pe: "snd (fst (st i)) = []"
  proof (cases "buf f")
    case None
    with inv show ?thesis by (simp add: buf_inv_def)
  next
    case (Some b)
    show ?thesis
    proof (cases "buf_addr_base f = UINT32_MAX")
      case True
      with inv Some show ?thesis by (simp add: buf_inv_def)
    next
      case nb: False
      from emp Some have e: "buf_addr_low f = UINT32_MAX" "buf_addr_high f = 0" by simp_all
      from inv Some nb have "\<forall>x \<in> set (snd (fst (st i))). buf_addr_low f \<le> x \<and> x < buf_addr_high f"
        by (simp add: buf_inv_def)
      then have "\<forall>x \<in> set (snd (fst (st i))). False" unfolding e by simp
      then show ?thesis by (cases "snd (fst (st i))") auto
    qed
  qed
  then have fs1: "fst (st i) = (fst (fst (st i)), [])" by (simp add: prod_eq_iff)
  have q: "list_all obs_quiet [CallFlush i]" by simp
  have qs: "foldl obs_step st [CallFlush i] = st" "writes_ok fs st [CallFlush i]" by simp_all
  have tr: "trace (log (CallFlush i) w) = trace w @ [CallFlush i]" by simp
  have ot: "\<forall>j. j \<noteq> i \<longrightarrow> foldl obs_step st [CallFlush i] j = st j" by simp
  have fi: "fst (foldl obs_step st [CallFlush i] i) = (fst (fst (st i)), [])"
    using fs1 by simp
  have bi: "buf_inv f (fst (foldl obs_step st [CallFlush i] i))" using inv by simp
  have cb: "copied_bytes [CallFlush i] = []" by simp
  have emp': "buf f \<noteq> None \<longrightarrow> buf_addr_low f = UINT32_MAX \<and> buf_addr_high f = 0"
    using emp by blast
  have sc: "same_config f f" "buf f = buf f" by simp_all
  from run tr qs(2) ot fi sc bi emp' cb show ?thesis by blast
next
  case True
  then obtain b where b: "buf f = Some b" and nb: "buf_addr_base f \<noteq> UINT32_MAX"
    and lh: "buf_addr_low f < buf_addr_high f"
    by (auto simp: flush_active_def)
  from geo obtain j m where jm: "j \<le> m" "m < 32" and ws: "writesize f = 2 ^ j"
    and uws: "unat (writesize f) = 2 ^ j" and uwbs: "unat (writebufsize f) = 2 ^ m"
    by (rule geometry_ok_exp)
  have j: "j < 32" using jm by simp
  let ?B = "unat (buf_addr_base f)" and ?L = "unat (buf_addr_low f)"
  let ?H = "unat (buf_addr_high f)" and ?W = "(2::nat) ^ j" and ?P = "(2::nat) ^ m"
  from inv b nb lh have lenb: "length b = ?P" and pb: "?P dvd ?B"
    and content: "\<forall>k < ?P. b ! k = (case fst (fst (st i)) (buf_addr_base f + word_of_nat k) of
                                      Some v \<Rightarrow> v | None \<Rightarrow> erased f)"
    and dom: "\<forall>a v. fst (fst (st i)) a = Some v \<longrightarrow> buf_addr_low f \<le> a \<and> a < buf_addr_high f"
    and pend: "\<forall>x \<in> set (snd (fst (st i))). buf_addr_low f \<le> x \<and> x < buf_addr_high f"
    and bl: "buf_addr_base f \<le> buf_addr_low f" and hb: "?H \<le> ?B + ?P"
    by (auto simp: buf_inv_def uwbs)
  have BL: "?B \<le> ?L" using bl by (simp add: word_le_nat_alt)
  have LH: "?L < ?H" using lh by (simp add: word_less_nat_alt)
  have wp: "?W dvd ?P" using jm(1) by (rule le_imp_power_dvd)
  define aligned where "aligned = buf_addr_low f AND NOT (2 ^ j - 1)"
  let ?A = "?L div ?W * ?W"
  have ua: "unat aligned = ?A" unfolding aligned_def by (rule unat_align[OF j])
  have ap: "?B \<le> ?A" "?A \<le> ?L" "?W dvd ?A - ?B"
    using aligned_in_page[OF _ wp pb BL] by simp_all
  have "buf_addr_base f \<le> aligned"
    using ap(1) by (simp add: word_le_nat_alt ua)
  then have off: "unat (aligned - buf_addr_base f) = ?A - ?B"
    by (simp add: unat_sub ua)
  have AH: "?A \<le> ?H" using ap(2) LH by linarith
  then have "aligned \<le> buf_addr_high f"
    by (simp add: word_le_nat_alt ua)
  then have len: "unat (buf_addr_high f - aligned) = ?H - ?A"
    by (simp add: unat_sub ua)
  obtain w1 e1 where prep: "flash_prepare f i (log (CallFlush i) w) = (True, f\<lparr>ready := True\<rparr>, w1)"
    and tr1: "trace w1 = trace w @ CallFlush i # e1" and q1: "list_all obs_quiet e1"
    using flash_prepare_hook_ok[OF ph, of i "log (CallFlush i) w"] by auto
  let ?w2 = "log (FlushRange i (buf_addr_low f) (buf_addr_high f)) w1"
  let ?st2 = "st(i := (fst (st i), buf_addr_low f, buf_addr_high f))"
  have exp: "\<forall>k<length b. expected_byte (erased (fs ! i)) (?st2 i)
               (buf_addr_base f + word_of_nat k) (b ! k)"
  proof (intro allI impI)
    fix k assume "k < length b"
    with content lenb have c: "b ! k = (case fst (fst (st i)) (buf_addr_base f + word_of_nat k) of
                                      Some v \<Rightarrow> v | None \<Rightarrow> erased f)" by simp
    have er: "erased (fs ! i) = erased f" using cfg by (simp add: same_config_def)
    show "expected_byte (erased (fs ! i)) (?st2 i) (buf_addr_base f + word_of_nat k) (b ! k)"
    proof (cases "fst (fst (st i)) (buf_addr_base f + word_of_nat k)")
      case None
      with c er show ?thesis by (simp add: expected_byte_def)
    next
      case (Some v)
      with dom have "buf_addr_low f \<le> buf_addr_base f + word_of_nat k
          \<and> buf_addr_base f + word_of_nat k < buf_addr_high f" by blast
      with c er Some show ?thesis by (simp add: expected_byte_def)
    qed
  qed
  have "\<exists>r w' evs. flush_loop (f\<lparr>ready := True\<rparr>) i b aligned (unat (aligned - buf_addr_base f))
            (buf_addr_high f - aligned) True ?w2 = Some (r, w')
          \<and> trace w' = trace ?w2 @ evs \<and> writes_ok fs ?st2 evs
          \<and> foldl obs_step ?st2 evs = ?st2(i := ((fst (fst (?st2 i)), []), snd (?st2 i)))
          \<and> copied_bytes evs = []"
  proof (rule flush_loop_total[where base = "buf_addr_base f"])
    show "0 < unat (writesize (f\<lparr>ready := True\<rparr>))" by (simp add: uws)
    show "unat (writesize (f\<lparr>ready := True\<rparr>)) dvd unat (aligned - buf_addr_base f)"
      using ap(3) by (simp add: uws off)
    show "unat (writesize (f\<lparr>ready := True\<rparr>)) dvd length b"
      using wp by (simp add: uws lenb)
    have "?A - ?B + (?H - ?A) \<le> ?P" using ap(1,2) hb LH by linarith
    then show "unat (aligned - buf_addr_base f) + unat (buf_addr_high f - aligned) \<le> length b"
      by (simp only: off len lenb)
    show "writesize (fs ! i) = writesize (f\<lparr>ready := True\<rparr>)"
      using cfg by (simp add: same_config_def)
    show "\<forall>k<length b. expected_byte (erased (fs ! i)) (?st2 i)
               (buf_addr_base f + word_of_nat k) (b ! k)" by (rule exp)
    show "aligned = buf_addr_base f + word_of_nat (unat (aligned - buf_addr_base f))" by simp
    have HA: "?A + (?H - ?A) = ?H" using AH by simp
    show "unat aligned + unat (buf_addr_high f - aligned) \<le> 2 ^ 32"
      unfolding ua len HA using unat_lt_32[of "buf_addr_high f"] by simp
    show "unat (writesize (f\<lparr>ready := True\<rparr>)) dvd unat aligned"
      unfolding ua by (simp add: uws)
    show "\<forall>x \<in> set (snd (fst (?st2 i))).
        unat aligned \<le> unat x \<and> unat x < unat aligned + unat (buf_addr_high f - aligned)"
    proof
      fix x assume "x \<in> set (snd (fst (?st2 i)))"
      then have "x \<in> set (snd (fst (st i)))" by simp
      with pend have "buf_addr_low f \<le> x" "x < buf_addr_high f" by blast+
      then have "?L \<le> unat x" "unat x < ?H" by (simp_all add: word_le_nat_alt word_less_nat_alt)
      with ap(2) show "unat aligned \<le> unat x
          \<and> unat x < unat aligned + unat (buf_addr_high f - aligned)"
        unfolding ua len HA by linarith
    qed
  qed
  then obtain r w' e2 where
    loop: "flush_loop (f\<lparr>ready := True\<rparr>) i b aligned (unat (aligned - buf_addr_base f))
            (buf_addr_high f - aligned) True ?w2 = Some (r, w')"
    and tr2: "trace w' = trace ?w2 @ e2" and ok2: "writes_ok fs ?st2 e2"
    and st2: "foldl obs_step ?st2 e2 = ?st2(i := ((fst (fst (?st2 i)), []), snd (?st2 i)))"
    and cb2: "copied_bytes e2 = []"
    by blast
  let ?f' = "f\<lparr>ready := True, buf_addr_base := UINT32_MAX, buf_addr_low := UINT32_MAX,
               buf_addr_high := 0\<rparr>"
  have run: "flash_buffered_flush f i w = Some (r, ?f', w')"
    using True b loop
    by (simp add: flash_buffered_flush_def flash_buffered_flush_body_def prep Let_def
          aligned_def ws)
  let ?evs = "(CallFlush i # e1) @ FlushRange i (buf_addr_low f) (buf_addr_high f) # e2"
  have t: "trace w' = trace w @ ?evs" by (simp add: tr2 tr1)
  have q1s: "foldl obs_step st' e1 = st'" and q1w: "writes_ok fs st' e1" for st'
    using obs_quiet_list[OF q1, of st' fs] by simp_all
  let ?st3 = "st(i := ((fst (fst (st i)), []), buf_addr_low f, buf_addr_high f))"
  have f1: "foldl obs_step st ?evs = ?st3"
    by (simp add: q1s st2)
  have o: "writes_ok fs st ?evs"
    by (simp add: writes_ok_append q1s q1w ok2)
  have ot: "\<forall>j. j \<noteq> i \<longrightarrow> foldl obs_step st ?evs j = st j"
    unfolding f1 by simp
  have fi: "fst (foldl obs_step st ?evs i) = (fst (fst (st i)), [])"
    unfolding f1 by simp
  have sc: "same_config f ?f'" by (simp add: same_config_def)
  have "buf_inv ?f' (fst (fst (st i)), [])" using lenb b by (simp add: buf_inv_def uwbs)
  then have bi: "buf_inv ?f' (fst (foldl obs_step st ?evs i))" unfolding fi .
  have bb: "buf ?f' = buf f" by simp
  have lh': "buf f \<noteq> None \<longrightarrow> buf_addr_low ?f' = UINT32_MAX \<and> buf_addr_high ?f' = 0" by simp
  have "copied_bytes e1 = []" using q1 by (rule copied_bytes_obs_quiet)
  then have cb: "copied_bytes ?evs = []" using cb2 by simp
  from run t o ot fi sc bb bi lh' cb show ?thesis by blast
qed

lemma done_total:
  assumes "flash_done f i w = (r, f', w')" and "snd (fst (st i)) = []"
  shows "\<exists>evs. trace w' = trace w @ evs \<and> writes_ok fs st evs \<and> foldl obs_step st evs = st
           \<and> copied_bytes evs = []"
  using assms
  by (auto simp: flash_done_def flash_done_body_def call_hook_def log_def
      split: if_splits option.splits prod.splits)

lemma done_buf_inv:
  assumes "flash_done f i w = (r, f', w')" and "buf_inv f sp" and "snd sp = []"
  shows "buf_inv f' sp"
proof -
  have "f' = f \<or> buf f' = None"
    using assms(1)
    by (auto simp: flash_done_def flash_done_body_def split: if_splits option.splits prod.splits)
  then show ?thesis
  proof
    assume "f' = f"
    with assms(2) show ?thesis by simp
  next
    assume "buf f' = None"
    with assms(3) show ?thesis by (simp add: buf_inv_def)
  qed
qed

lemma page_end_bound:
  fixes D :: nat
  assumes "m < 32" "D < 2 ^ 32"
  shows "D div 2 ^ m * 2 ^ m + 2 ^ m \<le> (2::nat) ^ 32"
proof (rule dvd_gap)
  show "(2::nat) ^ m dvd D div 2 ^ m * 2 ^ m" by simp
  show "(2::nat) ^ m dvd 2 ^ 32" using assms(1) by (intro le_imp_power_dvd) simp
  have "D div 2 ^ m * 2 ^ m \<le> D" by simp
  with assms(2) show "D div 2 ^ m * 2 ^ m < 2 ^ 32" by linarith
qed

lemma chunk_arith:
  fixes dest len :: "32 word"
  assumes m: "m < 32" and len: "len \<noteq> 0" and nw: "unat dest + unat len < 2 ^ 32"
  defines "base \<equiv> dest AND NOT (2 ^ m - 1)"
  defines "off \<equiv> dest mod 2 ^ m"
  defines "n \<equiv> min (2 ^ m - off) len"
  shows "unat base = unat dest div 2 ^ m * 2 ^ m"
    and "unat off = unat dest mod 2 ^ m"
    and "0 < unat n" and "unat n \<le> unat len" and "unat off + unat n \<le> 2 ^ m"
    and "unat (dest + n) = unat dest + unat n"
    and "unat (len - n) = unat len - unat n"
    and "unat base + unat off = unat dest"
    and "unat base + 2 ^ m \<le> 2 ^ 32"
proof -
  let ?P = "(2::nat) ^ m" and ?D = "unat dest"
  have Ppos: "0 < ?P" by simp
  show b: "unat base = ?D div ?P * ?P" unfolding base_def by (rule unat_align[OF m])
  show o: "unat off = ?D mod ?P" unfolding off_def by (rule unat_mod_2p[OF m])
  have olt: "unat off < ?P" using o by simp
  then have "off \<le> 2 ^ m" by (simp add: word_le_nat_alt unat_2p[OF m])
  then have d: "unat (2 ^ m - off) = ?P - unat off" by (simp add: unat_sub unat_2p[OF m])
  have un: "unat n = min (?P - unat off) (unat len)"
    unfolding n_def by (simp add: min_def word_le_nat_alt d)
  have lpos: "0 < unat len" using len by (simp add: unat_gt_0)
  show "0 < unat n" using un olt lpos by simp
  show nl: "unat n \<le> unat len" using un by simp
  show "unat off + unat n \<le> ?P" using un olt by simp
  have "unat dest + unat n < 2 ^ 32" using nl nw by linarith
  then show "unat (dest + n) = ?D + unat n" by (simp add: unat_add_lem[THEN iffD1])
  have "n \<le> len" unfolding n_def by simp
  then show "unat (len - n) = unat len - unat n" by (simp add: unat_sub)
  show "unat base + unat off = ?D" unfolding b o by (rule div_mult_mod_eq)
  have "?D < 2 ^ 32" using nw by simp
  from page_end_bound[OF m this] show "unat base + 2 ^ m \<le> 2 ^ 32" by (simp only: b)
qed

lemma page_offset:
  fixes base dest :: "32 word"
  assumes "unat base + off = unat dest" and "unat base + P \<le> 2 ^ 32" and "P \<le> 2 ^ 31"
    and "k < P" and "off + n \<le> P"
  shows "(unat (base + word_of_nat k - dest) < n) = (off \<le> k \<and> k < off + n)"
    and "off \<le> k \<Longrightarrow> unat (base + word_of_nat k - dest) = k - off"
proof -
  have k32: "k < 2 ^ 32" using assms(2,4) by linarith
  then have uk: "unat (word_of_nat k :: 32 word) = k" by (simp add: unat_of_nat)
  have "unat base + k < 2 ^ 32" using assms(2,4) by linarith
  then have ux: "unat (base + word_of_nat k) = unat base + k"
    using uk by (simp add: unat_add_lem[THEN iffD1])
  show ge: "unat (base + word_of_nat k - dest) = k - off" if "off \<le> k"
  proof -
    have "dest \<le> base + word_of_nat k" using that assms(1) ux by (simp add: word_le_nat_alt)
    then have "unat (base + word_of_nat k - dest) = unat base + k - unat dest"
      by (simp add: unat_sub ux)
    with assms(1) show ?thesis by linarith
  qed
  show "(unat (base + word_of_nat k - dest) < n) = (off \<le> k \<and> k < off + n)"
  proof (cases "off \<le> k")
    case True
    with ge show ?thesis by auto
  next
    case False
    then have lt: "base + word_of_nat k < dest" using assms(1) ux by (simp add: word_less_nat_alt)
    have "unat (base + word_of_nat k - dest) = unat (base + word_of_nat k) + 2 ^ 32 - unat dest"
      using lt by (simp add: unat_sub_if' word_less_nat_alt)
    then have "unat (base + word_of_nat k - dest) = 2 ^ 32 - (off - k)"
      using ux assms(1) False by linarith
    moreover have "off - k \<le> P" using assms(5) by linarith
    moreover have "(2::nat) ^ 32 = 2 ^ 31 + 2 ^ 31" by simp
    ultimately have "P \<le> unat (base + word_of_nat k - dest)" using assms(3) by linarith
    with False assms(5) show ?thesis by auto
  qed
qed

lemma in_chunk:
  fixes a dest n :: "32 word"
  assumes "unat (dest + n) = unat dest + unat n" and "unat (a - dest) < unat n"
  shows "dest \<le> a" and "a < dest + n"
proof -
  have nw: "unat dest + unat (a - dest) < 2 ^ 32"
    using assms unat_lt_32[of "dest + n"] by linarith
  have "a = dest + (a - dest)" by simp
  then have "unat a = unat (dest + (a - dest))" by simp
  also have "\<dots> = unat dest + unat (a - dest)"
    by (rule unat_add_lem[THEN iffD1]) (use nw in simp)
  finally have ua: "unat a = unat dest + unat (a - dest)" .
  show "dest \<le> a" using ua by (simp add: word_le_nat_alt)
  show "a < dest + n" using ua assms by (simp add: word_less_nat_alt)
qed

lemma nth_memcpy:
  assumes "off + n \<le> length b" and "n \<le> length src" and "k < length b"
  shows "(take off b @ take n src @ drop (off + n) b) ! k =
           (if off \<le> k \<and> k < off + n then src ! (k - off) else b ! k)"
  using assms by (auto simp: nth_append min_def)

lemma pow2_le_31: "m < 32 \<Longrightarrow> (2::nat) ^ m \<le> 2 ^ 31"
  by (intro power_increasing) simp_all

lemma bw_copy_total:
  assumes geo: "geometry_ok f" and inv: "buf_inv f (fst (st i))" and bf: "buf f \<noteq> None"
    and base: "buf_addr_base f = bw_base_addr f dest"
    and len: "len \<noteq> 0" and nw: "unat dest + unat len < 2 ^ 32" and src: "unat len \<le> length src"
  shows "\<exists>f' w' e. bw_copy f i dest src len w = Some (f', w') \<and> trace w' = trace w @ [e]
      \<and> write_ok fs st e \<and> (\<forall>j. j \<noteq> i \<longrightarrow> obs_step st e j = st j) \<and> same_config f f'
      \<and> buf_inv f' (fst (obs_step st e i)) \<and> buf f' \<noteq> None
      \<and> copies_sound (\<lambda>j x. j = i) dest src (unat (bw_local_len f dest len)) [e]
      \<and> copies_all dest (unat (bw_local_len f dest len)) [e]"
proof -
  from geo obtain j m where m: "m < 32" and wbs: "writebufsize f = 2 ^ m"
    and uwbs: "unat (writebufsize f) = 2 ^ m"
    by (rule geometry_ok_exp)
  let ?P = "(2::nat) ^ m" and ?D = "unat dest"
  from bf obtain b where b: "buf f = Some b" by auto
  define off where "off = unat (bw_offset f dest)"
  define n where "n = unat (bw_local_len f dest len)"
  let ?ll = "bw_local_len f dest len"
  have ub: "unat (buf_addr_base f) = ?D div ?P * ?P"
    using chunk_arith(1)[OF m len nw] by (simp add: base bw_base_addr_def wbs)
  have uo: "off = ?D mod ?P" using chunk_arith(2)[OF m len nw] by (simp add: off_def bw_offset_def wbs)
  have npos: "0 < n" and nlen: "n \<le> unat len" and on: "off + n \<le> ?P"
    and ude: "unat (dest + ?ll) = ?D + n" and bo: "unat (buf_addr_base f) + off = ?D"
    and bp: "unat (buf_addr_base f) + ?P \<le> 2 ^ 32"
    using chunk_arith(3,4,5,6,8,9)[OF m len nw]
    by (simp_all add: n_def off_def bw_local_len_def bw_offset_def base bw_base_addr_def wbs)
  have lpos: "0 < unat len" using len by (simp add: unat_gt_0)
  have "unat (buf_addr_base f) < 2 ^ 32 - 1" using bo nw lpos by linarith
  then have nb: "buf_addr_base f \<noteq> UINT32_MAX" by (auto simp: UINT32_MAX_def)
  let ?s = "fst (fst (st i))"
  let ?p = "snd (fst (st i))"
  from inv b nb have lenb: "length b = ?P" and pb: "?P dvd unat (buf_addr_base f)"
    and content: "\<forall>k < ?P. b ! k = (case ?s (buf_addr_base f + word_of_nat k) of
                                      Some v \<Rightarrow> v | None \<Rightarrow> erased f)"
    and dom: "\<forall>a v. ?s a = Some v \<longrightarrow> buf_addr_low f \<le> a \<and> a < buf_addr_high f"
    and pend: "\<forall>x \<in> set ?p. buf_addr_low f \<le> x \<and> x < buf_addr_high f"
    and rng: "buf_addr_low f = UINT32_MAX \<and> buf_addr_high f = 0
              \<or> buf_addr_low f < buf_addr_high f \<and> buf_addr_base f \<le> buf_addr_low f
                \<and> unat (buf_addr_high f) \<le> unat (buf_addr_base f) + ?P"
    by (simp_all add: buf_inv_def uwbs)
  have nsrc: "n \<le> length src" using nlen src by linarith
  let ?b' = "take off b @ take n src @ drop (off + n) b"
  let ?e = "Memcpy i dest off (take n src)"
  define f' where "f' = f\<lparr>buf := Some ?b', buf_addr_low := min (buf_addr_low f) dest,
               buf_addr_high := max (buf_addr_high f) (dest + ?ll)\<rparr>"
  have F: "buf f' = Some ?b'" "buf_addr_base f' = buf_addr_base f"
    "writebufsize f' = writebufsize f" "erased f' = erased f"
    "buf_addr_low f' = min (buf_addr_low f) dest"
    "buf_addr_high f' = max (buf_addr_high f) (dest + ?ll)"
    by (simp_all add: f'_def)
  have wnz: "writebufsize f \<noteq> 0" using uwbs by (metis power_not_zero unat_0 zero_neq_numeral)
  have mc: "memcpy_buf b off src n = Some ?b'"
    using on nsrc by (simp add: memcpy_buf_def lenb)
  have run: "bw_copy f i dest src len w = Some (f', log ?e w)"
    using wnz b mc unfolding f'_def off_def n_def by (simp add: bw_copy_def)
  define s' where "s' = (\<lambda>a. if unat (a - dest) < n then Some (src ! unat (a - dest)) else ?s a)"
  define p' where "p' = ?p @ map (\<lambda>k. dest + word_of_nat k) [0..<n]"
  have lt: "length (take n src) = n" using nsrc by simp
  have obs: "obs_step st ?e = st(i := ((s', p'), snd (st i)))"
    unfolding obs_step.simps lt s'_def p'_def using nsrc by (simp add: fun_eq_iff)
  have lenb': "length ?b' = ?P" using on nsrc lenb by simp
  have bd: "buf_addr_base f \<le> dest" using bo by (simp add: word_le_nat_alt)
  have dlt: "dest < dest + ?ll" using ude npos by (simp add: word_less_nat_alt)
  have c': "?b' ! k = (case s' (buf_addr_base f + word_of_nat k) of
                          Some v \<Rightarrow> v | None \<Rightarrow> erased f)" if "k < ?P" for k
  proof -
    have po: "(unat (buf_addr_base f + word_of_nat k - dest) < n) = (off \<le> k \<and> k < off + n)"
      "off \<le> k \<Longrightarrow> unat (buf_addr_base f + word_of_nat k - dest) = k - off"
      by (rule page_offset[OF bo bp pow2_le_31[OF m] that on])+
    have nth: "?b' ! k = (if off \<le> k \<and> k < off + n then src ! (k - off) else b ! k)"
      using on nsrc that by (intro nth_memcpy) (simp_all add: lenb)
    show ?thesis
    proof (cases "off \<le> k \<and> k < off + n")
      case True
      then have "unat (buf_addr_base f + word_of_nat k - dest) < n"
        and "unat (buf_addr_base f + word_of_nat k - dest) = k - off"
        using po by simp_all
      with nth True show ?thesis by (simp add: s'_def)
    next
      case False
      then have "\<not> unat (buf_addr_base f + word_of_nat k - dest) < n" using po(1) by simp
      with nth False content that show ?thesis by (simp add: s'_def)
    qed
  qed
  have d': "min (buf_addr_low f) dest \<le> a \<and> a < max (buf_addr_high f) (dest + ?ll)"
    if "s' a = Some v" for a v
  proof (cases "unat (a - dest) < n")
    case True
    then have "unat (a - dest) < unat ?ll" by (simp add: n_def)
    from in_chunk[OF _ this] ude have "dest \<le> a" "a < dest + ?ll" by (simp_all add: n_def)
    then show ?thesis by (simp add: min_le_iff_disj less_max_iff_disj)
  next
    case False
    with that have "?s a = Some v" by (simp add: s'_def)
    with dom have "buf_addr_low f \<le> a \<and> a < buf_addr_high f" by blast
    then show ?thesis by (simp add: min_le_iff_disj less_max_iff_disj)
  qed
  have r1: "min (buf_addr_low f) dest < max (buf_addr_high f) (dest + ?ll)"
    using dlt by (simp add: min_less_iff_disj less_max_iff_disj)
  have bl: "buf_addr_base f \<le> buf_addr_low f"
    using rng le_UINT32_MAX[of "buf_addr_base f"] by auto
  have r2: "buf_addr_base f \<le> min (buf_addr_low f) dest" using bl bd by simp
  have hb: "unat (buf_addr_high f) \<le> unat (buf_addr_base f) + ?P" using rng by auto
  have "unat (dest + ?ll) \<le> unat (buf_addr_base f) + ?P" using ude bo on by linarith
  with hb have r3: "unat (max (buf_addr_high f) (dest + ?ll)) \<le> unat (buf_addr_base f) + ?P"
    by (simp add: max_def)
  have A: "\<forall>k < ?P. ?b' ! k = (case s' (buf_addr_base f + word_of_nat k) of
                          Some v \<Rightarrow> v | None \<Rightarrow> erased f)" using c' by blast
  have B: "\<forall>a v. s' a = Some v \<longrightarrow>
      min (buf_addr_low f) dest \<le> a \<and> a < max (buf_addr_high f) (dest + ?ll)"
    using d' by blast
  have C: "min (buf_addr_low f) dest < max (buf_addr_high f) (dest + ?ll)
      \<and> buf_addr_base f \<le> min (buf_addr_low f) dest
      \<and> unat (max (buf_addr_high f) (dest + ?ll)) \<le> unat (buf_addr_base f) + ?P"
    using r1 r2 r3 by blast
  have n32: "n < 2 ^ 32" unfolding n_def by (rule unat_lt_32)
  have D: "\<forall>x \<in> set p'. min (buf_addr_low f) dest \<le> x
             \<and> x < max (buf_addr_high f) (dest + ?ll)"
  proof
    fix x assume "x \<in> set p'"
    then consider "x \<in> set ?p" | k where "k < n" "x = dest + word_of_nat k"
      unfolding p'_def by auto
    then show "min (buf_addr_low f) dest \<le> x \<and> x < max (buf_addr_high f) (dest + ?ll)"
    proof cases
      case 1
      with pend have "buf_addr_low f \<le> x \<and> x < buf_addr_high f" by blast
      then show ?thesis by (simp add: min_le_iff_disj less_max_iff_disj)
    next
      case 2
      have "unat (word_of_nat k :: 32 word) = k" using 2(1) n32 by (simp add: unat_of_nat)
      then have "unat (x - dest) < unat ?ll" using 2 by (simp add: n_def)
      from in_chunk[OF _ this] ude have "dest \<le> x" "x < dest + ?ll" by (simp_all add: n_def)
      then show ?thesis by (simp add: min_le_iff_disj less_max_iff_disj)
    qed
  qed
  have bi: "buf_inv f' (s', p')"
    unfolding buf_inv_def F uwbs option.case fst_conv snd_conv
    using lenb' nb pb A B C D by (simp only: if_False simp_thms)
  have tr: "trace (log ?e w) = trace w @ [?e]" by simp
  have wo: "write_ok fs st ?e" by simp
  have ot: "\<forall>j. j \<noteq> i \<longrightarrow> obs_step st ?e j = st j" by simp
  have sc: "same_config f f'" by (simp add: same_config_def f'_def)
  have bi': "buf_inv f' (fst (obs_step st ?e i))" using bi by (simp only: obs) simp
  have nn: "buf f' \<noteq> None" by (simp add: F)
  have cbs: "copied_bytes [?e] = map (\<lambda>k. (i, dest + word_of_nat k, src ! k)) [0..<n]"
    using nsrc by (simp add: lt)
  have cs: "copies_sound (\<lambda>j x. j = i) dest src n [?e]"
    unfolding copies_sound_def cbs list_all_iff
  proof
    fix y assume "y \<in> set (map (\<lambda>k. (i, dest + word_of_nat k, src ! k)) [0..<n])"
    then obtain k where k: "k < n" and y: "y = (i, dest + word_of_nat k, src ! k)" by auto
    have "unat (word_of_nat k :: 32 word) = k" using k n32 by (simp add: unat_of_nat)
    then show "case y of (j, x, v) \<Rightarrow> j = i \<and> unat (x - dest) < n \<and> v = src ! unat (x - dest)"
      using k y by simp
  qed
  have cl: "copies_all dest n [?e]" unfolding copies_all_def cbs by (simp add: comp_def)
  from run tr wo ot sc bi' nn cs cl show ?thesis unfolding n_def by blast
qed


lemma memset_full: "length b = n \<Longrightarrow> memset_buf b v n = Some (replicate n v)"
  by (simp add: memset_buf_def)

lemma bw_setup_total:
  assumes geo: "geometry_ok f" and ph: "prepare_hook_ok f" and inv: "buf_inv f (fst (st i))"
    and cfg: "same_config (fs ! i) f" and bf: "buf f \<noteq> None"
  shows "\<exists>r f' w' evs. bw_setup f i dest ret w = Some (r, f', w') \<and> trace w' = trace w @ evs
      \<and> writes_ok fs st evs \<and> (\<forall>j. j \<noteq> i \<longrightarrow> fst (foldl obs_step st evs j) = fst (st j))
      \<and> same_config f f' \<and> buf_inv f' (fst (foldl obs_step st evs i)) \<and> buf f' \<noteq> None
      \<and> buf_addr_base f' = bw_base_addr f' dest \<and> copied_bytes evs = [] \<and> (r \<longrightarrow> ret)"
proof (cases "bw_base_addr f dest = buf_addr_base f")
  case True
  have run: "bw_setup f i dest ret w = Some (ret, f, w)" using True by (simp add: bw_setup_def)
  have "trace w = trace w @ []" "writes_ok fs st []" by simp_all
  with run inv bf True show ?thesis
    by (intro exI[of _ ret] exI[of _ f] exI[of _ w] exI[of _ "[]"]) simp
next
  case False
  from geo obtain j m where m: "m < 32" and wbs: "writebufsize f = 2 ^ m"
    and uwbs: "unat (writebufsize f) = 2 ^ m"
    by (rule geometry_ok_exp)
  have "\<exists>r f' w' evs. flash_buffered_flush f i w = Some (r, f', w') \<and> trace w' = trace w @ evs
     \<and> writes_ok fs st evs \<and> (\<forall>j. j \<noteq> i \<longrightarrow> foldl obs_step st evs j = st j)
     \<and> fst (foldl obs_step st evs i) = (fst (fst (st i)), [])
     \<and> same_config f f' \<and> buf f' = buf f \<and> buf_inv f' (fst (foldl obs_step st evs i))
     \<and> (buf f \<noteq> None \<longrightarrow> buf_addr_low f' = UINT32_MAX \<and> buf_addr_high f' = 0)
     \<and> copied_bytes evs = []"
    using geo ph inv cfg by (rule flush_total)
  then obtain r f1 w1 e1 where fl: "flash_buffered_flush f i w = Some (r, f1, w1)"
    and t1: "trace w1 = trace w @ e1" and o1: "writes_ok fs st e1"
    and s1: "\<forall>j. j \<noteq> i \<longrightarrow> foldl obs_step st e1 j = st j"
    and p1: "fst (foldl obs_step st e1 i) = (fst (fst (st i)), [])"
    and c1: "same_config f f1" and b1: "buf f1 = buf f"
    and i1: "buf_inv f1 (fst (foldl obs_step st e1 i))"
    and lh: "buf_addr_low f1 = UINT32_MAX \<and> buf_addr_high f1 = 0"
    and cb1: "copied_bytes e1 = []"
    using bf by blast
  from bf b1 obtain b0 where b0: "buf f1 = Some b0" by auto
  have w1: "writebufsize f1 = writebufsize f" and er: "erased f1 = erased f"
    using c1 by (simp_all add: same_config_def)
  have len0: "length b0 = 2 ^ m" using i1 b0 by (simp add: buf_inv_def w1 uwbs)
  let ?b = "replicate (2 ^ m) (erased f)"
  let ?e = "Memset i (erased f) (writebufsize f)"
  define f' where "f' = f1\<lparr>buf_addr_base := bw_base_addr f dest, buf := Some ?b\<rparr>"
  have F: "buf f' = Some ?b" "buf_addr_base f' = bw_base_addr f dest"
    "writebufsize f' = writebufsize f" "erased f' = erased f"
    "buf_addr_low f' = UINT32_MAX" "buf_addr_high f' = 0"
    by (simp_all add: f'_def w1 er lh)
  have ms: "memset_buf b0 (erased f) (2 ^ m) = Some ?b" using len0 by (rule memset_full)
  have run: "bw_setup f i dest ret w = Some (ret \<and> r, f', log ?e w1)"
    using False fl b0 ms unfolding f'_def by (simp add: bw_setup_def w1 er uwbs)
  let ?evs = "e1 @ [?e]"
  let ?st1 = "foldl obs_step st e1"
  have tr: "trace (log ?e w1) = trace w @ ?evs" by (simp add: t1)
  have wo: "writes_ok fs st ?evs" using o1 p1 by (simp add: writes_ok_append)
  have fo: "foldl obs_step st ?evs = ?st1(i := ((\<lambda>a. None, []), snd (?st1 i)))"
    using p1 by simp
  have ot: "\<forall>j. j \<noteq> i \<longrightarrow> fst (foldl obs_step st ?evs j) = fst (st j)"
    unfolding fo using s1 by simp
  have sc: "same_config f f'" using c1 by (simp add: same_config_def f'_def)
  have dv: "2 ^ m dvd unat (bw_base_addr f dest)"
    unfolding bw_base_addr_def wbs unat_align[OF m] by simp
  have bi0: "buf_inv f' (\<lambda>a. None, [])"
    unfolding buf_inv_def F uwbs option.case using dv by simp
  have bi: "buf_inv f' (fst (foldl obs_step st ?evs i))" unfolding fo using bi0 by simp
  have nn: "buf f' \<noteq> None" by (simp add: F)
  have bb: "buf_addr_base f' = bw_base_addr f' dest" by (simp add: F bw_base_addr_def)
  have cb: "copied_bytes ?evs = []" using cb1 by simp
  have rr: "ret \<and> r \<longrightarrow> ret" by simp
  from run tr wo ot sc bi nn bb cb rr show ?thesis by blast
qed

lemma trace_steps:
  assumes "trace w1 = trace w @ e1" and "trace w2 = trace w1 @ e2"
    and "writes_ok fs st e1" and "writes_ok fs (foldl obs_step st e1) e2"
  shows "trace w2 = trace w @ (e1 @ e2)" and "writes_ok fs st (e1 @ e2)"
    and "foldl obs_step st (e1 @ e2) = foldl obs_step (foldl obs_step st e1) e2"
  using assms by (simp_all add: writes_ok_append)

lemma buffered_write_loop_total:
  assumes geo: "geometry_ok f" and ph: "prepare_hook_ok f" and inv: "buf_inv f (fst (st i))"
    and cfg: "same_config (fs ! i) f" and bf: "buf f \<noteq> None"
    and nw: "unat dest + unat len < 2 ^ 32" and src: "unat len \<le> length src"
  shows "\<exists>r f' w' evs. buffered_write_loop f i dest src len ret w = Some (r, f', w')
      \<and> trace w' = trace w @ evs \<and> writes_ok fs st evs
      \<and> (\<forall>j. j \<noteq> i \<longrightarrow> fst (foldl obs_step st evs j) = fst (st j))
      \<and> same_config f f' \<and> buf_inv f' (fst (foldl obs_step st evs i)) \<and> buf f' \<noteq> None
      \<and> copies_sound (\<lambda>j x. j = i) dest src (unat len) evs
      \<and> copies_all dest (unat len) evs \<and> (r \<longrightarrow> ret)"
  using assms
proof (induction "unat len" arbitrary: f dest src len ret w st rule: less_induct)
  case less
  show ?case
  proof (cases "len = 0")
    case True
    have run: "buffered_write_loop f i dest src len ret w = Some (ret, f, w)"
      using True by (subst buffered_write_loop.simps) simp
    have "trace w = trace w @ []" "writes_ok fs st []" by simp_all
    with run less.prems True show ?thesis
      by (intro exI[of _ ret] exI[of _ f] exI[of _ w] exI[of _ "[]"])
         (simp add: copies_sound_def copies_all_def)
  next
    case False
    have "\<exists>r f' w' evs. bw_setup f i dest ret w = Some (r, f', w') \<and> trace w' = trace w @ evs
      \<and> writes_ok fs st evs \<and> (\<forall>j. j \<noteq> i \<longrightarrow> fst (foldl obs_step st evs j) = fst (st j))
      \<and> same_config f f' \<and> buf_inv f' (fst (foldl obs_step st evs i)) \<and> buf f' \<noteq> None
      \<and> buf_addr_base f' = bw_base_addr f' dest \<and> copied_bytes evs = [] \<and> (r \<longrightarrow> ret)"
      using less.prems(1,2,3,4,5) by (rule bw_setup_total)
    then obtain ret1 f1 w1 e1 where su: "bw_setup f i dest ret w = Some (ret1, f1, w1)"
      and t1: "trace w1 = trace w @ e1" and o1: "writes_ok fs st e1"
      and s1: "\<forall>j. j \<noteq> i \<longrightarrow> fst (foldl obs_step st e1 j) = fst (st j)"
      and c1: "same_config f f1" and i1: "buf_inv f1 (fst (foldl obs_step st e1 i))"
      and b1: "buf f1 \<noteq> None" and ba: "buf_addr_base f1 = bw_base_addr f1 dest"
      and cb1: "copied_bytes e1 = []" and rr1: "ret1 \<longrightarrow> ret"
      by blast
    let ?st1 = "foldl obs_step st e1"
    have geo1: "geometry_ok f1" and ph1: "prepare_hook_ok f1"
      using c1 less.prems(1,2) by (simp_all add: same_config_geometry)
    have cfg1: "same_config (fs ! i) f1" using less.prems(4) c1 by (rule same_config_trans)
    have "\<exists>f' w' e. bw_copy f1 i dest src len w1 = Some (f', w') \<and> trace w' = trace w1 @ [e]
      \<and> write_ok fs ?st1 e \<and> (\<forall>j. j \<noteq> i \<longrightarrow> obs_step ?st1 e j = ?st1 j) \<and> same_config f1 f'
      \<and> buf_inv f' (fst (obs_step ?st1 e i)) \<and> buf f' \<noteq> None
      \<and> copies_sound (\<lambda>j x. j = i) dest src (unat (bw_local_len f1 dest len)) [e]
      \<and> copies_all dest (unat (bw_local_len f1 dest len)) [e]"
      using geo1 i1 b1 ba False less.prems(6,7) by (rule bw_copy_total)
    then obtain f2 w2 e where cp: "bw_copy f1 i dest src len w1 = Some (f2, w2)"
      and t2: "trace w2 = trace w1 @ [e]" and o2: "write_ok fs ?st1 e"
      and s2: "\<forall>j. j \<noteq> i \<longrightarrow> obs_step ?st1 e j = ?st1 j"
      and c2: "same_config f1 f2" and i2: "buf_inv f2 (fst (obs_step ?st1 e i))"
      and b2: "buf f2 \<noteq> None"
      and cs2: "copies_sound (\<lambda>j x. j = i) dest src (unat (bw_local_len f1 dest len)) [e]"
      and cl2: "copies_all dest (unat (bw_local_len f1 dest len)) [e]"
      by blast
    let ?st2 = "obs_step ?st1 e"
    have geo2: "geometry_ok f2" and ph2: "prepare_hook_ok f2"
      using c2 geo1 ph1 by (simp_all add: same_config_geometry)
    have cfg2: "same_config (fs ! i) f2" using cfg1 c2 by (rule same_config_trans)
    from geo1 obtain j m where m: "m < 32" and wbs: "writebufsize f1 = 2 ^ m"
      by (rule geometry_ok_exp)
    define n where "n = bw_local_len f1 dest len"
    have npos: "0 < unat n" and nlen: "unat n \<le> unat len"
      and ude: "unat (dest + n) = unat dest + unat n"
      and ule: "unat (len - n) = unat len - unat n"
      using chunk_arith(3,4,6,7)[OF m False less.prems(6)]
      by (simp_all add: n_def bw_local_len_def bw_offset_def wbs)
    have lt: "unat (len - n) < unat len" using npos nlen ule by linarith
    have nw2: "unat (dest + n) + unat (len - n) < 2 ^ 32"
      using ude ule nlen less.prems(6) by linarith
    have src2: "unat (len - n) \<le> length (drop (unat n) src)"
      using ule less.prems(7) by simp
    have "\<exists>r f' w' evs.
        buffered_write_loop f2 i (dest + n) (drop (unat n) src) (len - n) ret1 w2
          = Some (r, f', w')
      \<and> trace w' = trace w2 @ evs \<and> writes_ok fs ?st2 evs
      \<and> (\<forall>j. j \<noteq> i \<longrightarrow> fst (foldl obs_step ?st2 evs j) = fst (?st2 j))
      \<and> same_config f2 f' \<and> buf_inv f' (fst (foldl obs_step ?st2 evs i)) \<and> buf f' \<noteq> None
      \<and> copies_sound (\<lambda>j x. j = i) (dest + n) (drop (unat n) src) (unat (len - n)) evs
      \<and> copies_all (dest + n) (unat (len - n)) evs \<and> (r \<longrightarrow> ret1)"
      using lt geo2 ph2 i2 cfg2 b2 nw2 src2 by (rule less.hyps)
    then obtain r f3 w3 e3 where
      lp: "buffered_write_loop f2 i (dest + n) (drop (unat n) src) (len - n) ret1 w2
            = Some (r, f3, w3)"
      and t3: "trace w3 = trace w2 @ e3" and o3: "writes_ok fs ?st2 e3"
      and s3: "\<forall>j. j \<noteq> i \<longrightarrow> fst (foldl obs_step ?st2 e3 j) = fst (?st2 j)"
      and c3: "same_config f2 f3" and i3: "buf_inv f3 (fst (foldl obs_step ?st2 e3 i))"
      and b3: "buf f3 \<noteq> None"
      and cs3: "copies_sound (\<lambda>j x. j = i) (dest + n) (drop (unat n) src) (unat (len - n)) e3"
      and cl3: "copies_all (dest + n) (unat (len - n)) e3" and rr3: "r \<longrightarrow> ret1"
      by blast
    have run: "buffered_write_loop f i dest src len ret w = Some (r, f3, w3)"
      using False su cp lp unfolding n_def by (subst buffered_write_loop.simps) simp
    let ?evs = "e1 @ e # e3"
    have fo: "foldl obs_step st ?evs = foldl obs_step ?st2 e3" by simp
    have tr: "trace w3 = trace w @ ?evs" by (simp add: t1 t2 t3)
    have wo: "writes_ok fs st ?evs" using o1 o2 o3 by (simp add: writes_ok_append)
    have ot: "\<forall>j. j \<noteq> i \<longrightarrow> fst (foldl obs_step st ?evs j) = fst (st j)"
      unfolding fo using s1 s2 s3 by simp
    have sc: "same_config f f3" using c1 c2 c3 by (blast intro: same_config_trans)
    have bi: "buf_inv f3 (fst (foldl obs_step st ?evs i))" unfolding fo by (rule i3)
    have nsrc: "unat n \<le> length src" using nlen less.prems(7) by linarith
    have on: "word_of_nat (unat n) = n" by simp
    have "copies_sound (\<lambda>j x. j = i) (dest + word_of_nat (unat n)) (drop (unat n) src)
            (unat len - unat n) e3"
      using cs3 unfolding on ule .
    then have s3': "copies_sound (\<lambda>j x. j = i) dest src (unat len) e3"
      using nlen unat_lt_32[of len] nsrc by (rule copies_sound_shift)
    have s2': "copies_sound (\<lambda>j x. j = i) dest src (unat len) [e]"
      using cs2 nlen unfolding n_def by (rule copies_sound_mono)
    have s1': "copies_sound (\<lambda>j x. j = i) dest src (unat len) e1"
      using cb1 by (rule copies_sound_Nil)
    have cs: "copies_sound (\<lambda>j x. j = i) dest src (unat len) ?evs"
      using s1' s2' s3' copies_sound_append[of _ dest src "unat len" e1 "[e] @ e3"]
        copies_sound_append[of _ dest src "unat len" "[e]" e3] by simp
    have "copies_all (dest + word_of_nat (unat n)) (unat len - unat n) e3"
      using cl3 unfolding on ule .
    with cl2 have "copies_all dest (unat n + (unat len - unat n)) ([e] @ e3)"
      unfolding n_def by (rule copies_all_append)
    then have "copies_all dest (unat len) ([e] @ e3)" using nlen by simp
    then have cl: "copies_all dest (unat len) ?evs" using cb1 by (simp add: copies_all_def)
    have rr: "r \<longrightarrow> ret" using rr3 rr1 by blast
    from run tr wo ot sc bi b3 cs cl rr show ?thesis by blast
  qed
qed

lemma buffered_write_total:
  assumes geo: "geometry_ok f" and ph: "prepare_hook_ok f" and inv: "buf_inv f (fst (st i))"
    and cfg: "same_config (fs ! i) f"
    and nw: "unat dest + unat len < 2 ^ 32" and src: "unat len \<le> length src"
  shows "\<exists>r f' w' evs. flash_buffered_write env f i dest src len w = Some (r, f', w')
      \<and> trace w' = trace w @ evs \<and> writes_ok fs st evs
      \<and> (\<forall>j. j \<noteq> i \<longrightarrow> fst (foldl obs_step st evs j) = fst (st j))
      \<and> same_config f f' \<and> buf_inv f' (fst (foldl obs_step st evs i))
      \<and> copies_sound (\<lambda>j x. j = i) dest src (unat len) evs
      \<and> (r \<longrightarrow> copies_all dest (unat len) evs)"
proof -
  let ?w0 = "log (CallBufferedWrite i) w"
  have loop: "\<exists>r f' w' evs. buffered_write_loop g i dest src len True w0 = Some (r, f', w')
      \<and> trace w' = trace w @ (pre @ evs) \<and> writes_ok fs st (pre @ evs)
      \<and> (\<forall>j. j \<noteq> i \<longrightarrow> fst (foldl obs_step st (pre @ evs) j) = fst (st j))
      \<and> same_config f f' \<and> buf_inv f' (fst (foldl obs_step st (pre @ evs) i))
      \<and> copies_sound (\<lambda>j x. j = i) dest src (unat len) (pre @ evs)
      \<and> copies_all dest (unat len) (pre @ evs)"
    if g: "same_config f g" "buf_inv g (fst (st i))" "buf g \<noteq> None"
      and pre: "trace w0 = trace w @ pre" "list_all obs_quiet pre" for g w0 pre
  proof -
    have geo1: "geometry_ok g" and ph1: "prepare_hook_ok g"
      using g(1) geo ph by (simp_all add: same_config_geometry)
    have cfg1: "same_config (fs ! i) g" using cfg g(1) by (rule same_config_trans)
    have "\<exists>r f' w' evs. buffered_write_loop g i dest src len True w0 = Some (r, f', w')
      \<and> trace w' = trace w0 @ evs \<and> writes_ok fs st evs
      \<and> (\<forall>j. j \<noteq> i \<longrightarrow> fst (foldl obs_step st evs j) = fst (st j))
      \<and> same_config g f' \<and> buf_inv f' (fst (foldl obs_step st evs i)) \<and> buf f' \<noteq> None
      \<and> copies_sound (\<lambda>j x. j = i) dest src (unat len) evs
      \<and> copies_all dest (unat len) evs \<and> (r \<longrightarrow> True)"
      using geo1 ph1 g(2) cfg1 g(3) nw src by (rule buffered_write_loop_total)
    then obtain r f3 w3 e3 where
      lp: "buffered_write_loop g i dest src len True w0 = Some (r, f3, w3)"
      and t3: "trace w3 = trace w0 @ e3" and o3: "writes_ok fs st e3"
      and s3: "\<forall>j. j \<noteq> i \<longrightarrow> fst (foldl obs_step st e3 j) = fst (st j)"
      and c3: "same_config g f3" and i3: "buf_inv f3 (fst (foldl obs_step st e3 i))"
      and cs3: "copies_sound (\<lambda>j x. j = i) dest src (unat len) e3"
      and cl3: "copies_all dest (unat len) e3"
      by blast
    have q: "foldl obs_step st pre = st" "writes_ok fs st pre"
      using obs_quiet_list[OF pre(2), of st fs] by simp_all
    have fo: "foldl obs_step st (pre @ e3) = foldl obs_step st e3" by (simp add: q)
    have tr: "trace w3 = trace w @ (pre @ e3)" by (simp add: t3 pre(1))
    have wo: "writes_ok fs st (pre @ e3)" using o3 by (simp add: writes_ok_append q)
    have sc: "same_config f f3" using g(1) c3 by (rule same_config_trans)
    have ot: "\<forall>j. j \<noteq> i \<longrightarrow> fst (foldl obs_step st (pre @ e3) j) = fst (st j)"
      unfolding fo by (rule s3)
    have bi: "buf_inv f3 (fst (foldl obs_step st (pre @ e3) i))" unfolding fo by (rule i3)
    have cbp: "copied_bytes pre = []" using pre(2) by (rule copied_bytes_obs_quiet)
    have cs: "copies_sound (\<lambda>j x. j = i) dest src (unat len) (pre @ e3)"
      using cs3 cbp by (simp add: copies_sound_def)
    have cl: "copies_all dest (unat len) (pre @ e3)"
      using cl3 cbp by (simp add: copies_all_def)
    from lp tr wo ot sc bi cs cl show ?thesis by blast
  qed
  show ?thesis
  proof (cases "buf f = None")
    case False
    have run: "flash_buffered_write env f i dest src len w
                 = buffered_write_loop f i dest src len True ?w0"
      using False by (cases "buf f") (simp_all add: flash_buffered_write_def Let_def)
    have "trace ?w0 = trace w @ [CallBufferedWrite i]" "list_all obs_quiet [CallBufferedWrite i]"
      by simp_all
    from loop[OF same_config_refl inv False this] show ?thesis unfolding run by blast
  next
    case True
    obtain mo d where ml: "malloc env (writebufsize f) (dev ?w0) = (mo, d)"
      by (cases "malloc env (writebufsize f) (dev ?w0)") auto
    show ?thesis
    proof (cases mo)
      case None
      let ?w1 = "?w0\<lparr>dev := d, trace := trace ?w0 @ [Malloc i (writebufsize f) False]\<rparr>"
      let ?evs = "[CallBufferedWrite i, Malloc i (writebufsize f) False]"
      have run: "flash_buffered_write env f i dest src len w = Some (False, f, ?w1)"
        using True ml None by (simp add: flash_buffered_write_def Let_def call_malloc_def)
      have tr: "trace ?w1 = trace w @ ?evs" by simp
      have q: "foldl obs_step st ?evs = st" "writes_ok fs st ?evs" by simp_all
      from run tr q inv show ?thesis
        by (intro exI[of _ False] exI[of _ f] exI[of _ ?w1] exI[of _ ?evs])
           (simp add: copies_sound_def)
    next
      case (Some g)
      let ?w1 = "?w0\<lparr>dev := d, trace := trace ?w0 @ [Malloc i (writebufsize f) True]\<rparr>"
      let ?pre = "[CallBufferedWrite i, Malloc i (writebufsize f) True]"
      let ?b = "map g [0..<unat (writebufsize f)]"
      define f0 where "f0 = f\<lparr>buf := Some ?b, buf_addr_base := UINT32_MAX,
                               buf_addr_low := UINT32_MAX, buf_addr_high := 0\<rparr>"
      have run: "flash_buffered_write env f i dest src len w
                   = buffered_write_loop f0 i dest src len True ?w1"
        using True ml Some unfolding f0_def
        by (simp add: flash_buffered_write_def Let_def call_malloc_def)
      have c0: "same_config f f0" by (simp add: same_config_def f0_def)
      have "snd (fst (st i)) = []" using inv True by (simp add: buf_inv_def)
      then have i0: "buf_inv f0 (fst (st i))" by (simp add: buf_inv_def f0_def)
      have n0: "buf f0 \<noteq> None" by (simp add: f0_def)
      have "trace ?w1 = trace w @ ?pre" "list_all obs_quiet ?pre" by simp_all
      from loop[OF c0 i0 n0 this] show ?thesis unfolding run by blast
    qed
  qed
qed

lemma write_chunk_arith:
  fixes dest len lim :: "32 word"
  assumes lim: "dest < lim" and len: "len \<noteq> 0" and nw: "unat dest + unat len < 2 ^ 32"
  defines "n \<equiv> min (dest + len) lim - dest"
  shows "0 < unat n" and "unat n \<le> unat len"
    and "unat (min (dest + len) lim) = unat dest + unat n"
    and "unat (len - n) = unat len - unat n"
proof -
  let ?e = "min (dest + len) lim"
  have lpos: "0 < unat len" using len by (simp add: unat_gt_0)
  have ua: "unat (dest + len) = unat dest + unat len"
    using nw by (simp add: unat_add_lem[THEN iffD1])
  have ue: "unat ?e = min (unat dest + unat len) (unat lim)"
    by (simp add: min_def word_le_nat_alt ua)
  have dl: "unat dest < unat lim" using lim by (simp add: word_less_nat_alt)
  have de: "dest \<le> ?e" using ue dl by (simp add: word_le_nat_alt)
  have un: "unat n = unat ?e - unat dest" unfolding n_def using de by (simp add: unat_sub)
  show "0 < unat n" using un ue dl lpos by linarith
  show nl: "unat n \<le> unat len" using un ue by linarith
  show "unat ?e = unat dest + unat n" using un ue dl by linarith
  have "n \<le> len" using nl by (simp add: word_le_nat_alt)
  then show "unat (len - n) = unat len - unat n" by (simp add: unat_sub)
qed

lemma write_region_total:
  assumes geo: "geometry_ok f" and ph: "prepare_hook_ok f" and inv: "buf_inv f (fst (st i))"
    and cfg: "same_config (fs ! i) f" and ca: "contains_addr f dest" and len: "len \<noteq> 0"
    and nw: "unat dest + unat len < 2 ^ 32" and src: "unat len \<le> length src"
  shows "\<exists>r f' w' evs. write_region env f i dest src len ret w = Some (r, f', w')
      \<and> trace w' = trace w @ evs \<and> writes_ok fs st evs
      \<and> (\<forall>j. j \<noteq> i \<longrightarrow> fst (foldl obs_step st evs j) = fst (st j))
      \<and> same_config f f' \<and> buf_inv f' (fst (foldl obs_step st evs i))
      \<and> copies_sound (\<lambda>j x. j = i) dest src (unat (write_local_end f dest len - dest)) evs
      \<and> (r \<longrightarrow> ret \<and> copies_all dest (unat (write_local_end f dest len - dest)) evs)"
proof -
  define n where "n = write_local_end f dest len - dest"
  have lim: "dest < start f + length_f f" using ca by (simp add: contains_addr_def)
  have nlen: "unat n \<le> unat len"
    unfolding n_def write_local_end_def by (rule write_chunk_arith(2)[OF lim len nw])
  have nw1: "unat dest + unat n < 2 ^ 32" using nlen nw by linarith
  have src1: "unat n \<le> length src" using nlen src by linarith
  have "\<exists>r f' w' evs. flash_buffered_write env f i dest src n w = Some (r, f', w')
      \<and> trace w' = trace w @ evs \<and> writes_ok fs st evs
      \<and> (\<forall>j. j \<noteq> i \<longrightarrow> fst (foldl obs_step st evs j) = fst (st j))
      \<and> same_config f f' \<and> buf_inv f' (fst (foldl obs_step st evs i))
      \<and> copies_sound (\<lambda>j x. j = i) dest src (unat n) evs
      \<and> (r \<longrightarrow> copies_all dest (unat n) evs)"
    using geo ph inv cfg nw1 src1 by (rule buffered_write_total)
  then obtain r f1 w1 e1 where bw: "flash_buffered_write env f i dest src n w = Some (r, f1, w1)"
    and t1: "trace w1 = trace w @ e1" and o1: "writes_ok fs st e1"
    and s1: "\<forall>j. j \<noteq> i \<longrightarrow> fst (foldl obs_step st e1 j) = fst (st j)"
    and c1: "same_config f f1" and i1: "buf_inv f1 (fst (foldl obs_step st e1 i))"
    and cs1: "copies_sound (\<lambda>j x. j = i) dest src (unat n) e1"
    and cl1: "r \<longrightarrow> copies_all dest (unat n) e1"
    by blast
  let ?st1 = "foldl obs_step st e1"
  show ?thesis
  proof (cases "write_local_end f dest len = start f1 + length_f f1")
    case False
    have run: "write_region env f i dest src len ret w = Some (ret \<and> r, f1, w1)"
      using False bw by (simp add: write_region_def n_def)
    have rr: "ret \<and> r \<longrightarrow> ret \<and> copies_all dest (unat n) e1" using cl1 by blast
    from run t1 o1 s1 c1 i1 cs1 rr show ?thesis unfolding n_def by blast
  next
    case True
    have geo1: "geometry_ok f1" and ph1: "prepare_hook_ok f1"
      using c1 geo ph by (simp_all add: same_config_geometry)
    have cfg1: "same_config (fs ! i) f1" using cfg c1 by (rule same_config_trans)
    have "\<exists>r f' w' evs. flash_buffered_flush f1 i w1 = Some (r, f', w') \<and> trace w' = trace w1 @ evs
     \<and> writes_ok fs ?st1 evs \<and> (\<forall>j. j \<noteq> i \<longrightarrow> foldl obs_step ?st1 evs j = ?st1 j)
     \<and> fst (foldl obs_step ?st1 evs i) = (fst (fst (?st1 i)), [])
     \<and> same_config f1 f' \<and> buf f' = buf f1 \<and> buf_inv f' (fst (foldl obs_step ?st1 evs i))
     \<and> (buf f1 \<noteq> None \<longrightarrow> buf_addr_low f' = UINT32_MAX \<and> buf_addr_high f' = 0)
     \<and> copied_bytes evs = []"
      using geo1 ph1 i1 cfg1 by (rule flush_total)
    then obtain rf f2 w2 e2 where fl: "flash_buffered_flush f1 i w1 = Some (rf, f2, w2)"
      and t2: "trace w2 = trace w1 @ e2" and o2: "writes_ok fs ?st1 e2"
      and s2: "\<forall>j. j \<noteq> i \<longrightarrow> foldl obs_step ?st1 e2 j = ?st1 j"
      and p2: "fst (foldl obs_step ?st1 e2 i) = (fst (fst (?st1 i)), [])"
      and c2: "same_config f1 f2" and i2: "buf_inv f2 (fst (foldl obs_step ?st1 e2 i))"
      and cb2: "copied_bytes e2 = []"
      by blast
    let ?st2 = "foldl obs_step ?st1 e2"
    obtain rd f3 w3 where dn: "flash_done f2 i w2 = (rd, f3, w3)"
      by (cases "flash_done f2 i w2") auto
    have pe: "snd (fst (?st2 i)) = []" using p2 by simp
    have "\<exists>evs. trace w3 = trace w2 @ evs \<and> writes_ok fs ?st2 evs
        \<and> foldl obs_step ?st2 evs = ?st2 \<and> copied_bytes evs = []"
      using dn pe by (rule done_total)
    then obtain e3 where t3: "trace w3 = trace w2 @ e3"
      and o3: "writes_ok fs ?st2 e3" and q3: "foldl obs_step ?st2 e3 = ?st2"
      and cb3: "copied_bytes e3 = []" by blast
    have c3: "same_config f2 f3" using dn by (rule flash_done_config)
    have i3: "buf_inv f3 (fst (?st2 i))" using dn i2 pe by (rule done_buf_inv)
    have run: "write_region env f i dest src len ret w = Some (((ret \<and> r) \<and> rf) \<and> rd, f3, w3)"
      using True bw fl dn by (simp add: write_region_def n_def)
    let ?evs = "e1 @ e2 @ e3"
    have fo: "foldl obs_step st ?evs = ?st2" by (simp add: q3)
    have tr: "trace w3 = trace w @ ?evs" by (simp add: t1 t2 t3)
    have wo: "writes_ok fs st ?evs" using o1 o2 o3 by (simp add: writes_ok_append)
    have ot: "\<forall>j. j \<noteq> i \<longrightarrow> fst (foldl obs_step st ?evs j) = fst (st j)"
      unfolding fo using s1 s2 by simp
    have sc: "same_config f f3" using c1 c2 c3 by (blast intro: same_config_trans)
    have bi: "buf_inv f3 (fst (foldl obs_step st ?evs i))" unfolding fo by (rule i3)
    have cbe: "copied_bytes ?evs = copied_bytes e1" using cb2 cb3 by simp
    have cs: "copies_sound (\<lambda>j x. j = i) dest src (unat n) ?evs"
      using cs1 unfolding copies_sound_def cbe .
    have "r \<longrightarrow> copies_all dest (unat n) ?evs"
      using cl1 unfolding copies_all_def cbe .
    then have rr: "((ret \<and> r) \<and> rf) \<and> rd \<longrightarrow> ret \<and> copies_all dest (unat n) ?evs" by blast
    from run tr wo ot sc bi cs rr show ?thesis unfolding n_def by blast
  qed
qed

text \<open>The invariant of the chain of regions.\<close>

lemma regions_inv_nth:
  "regions_inv fs st k gs \<Longrightarrow> j < length gs \<Longrightarrow>
     geometry_ok (gs ! j) \<and> prepare_hook_ok (gs ! j) \<and> same_config (fs ! (k + j)) (gs ! j)
     \<and> buf_inv (gs ! j) (fst (st (k + j)))"
proof (induction gs arbitrary: k j)
  case Nil
  then show ?case by simp
next
  case (Cons g gs)
  show ?case
  proof (cases j)
    case 0
    with Cons.prems show ?thesis by simp
  next
    case (Suc j')
    with Cons.prems have "regions_inv fs st (Suc k) gs" "j' < length gs" by simp_all
    from Cons.IH[OF this] Suc show ?thesis by simp
  qed
qed

lemma regions_inv_cong:
  "\<forall>j\<ge>k. fst (st' j) = fst (st j) \<Longrightarrow> regions_inv fs st' k gs = regions_inv fs st k gs"
proof (induction gs arbitrary: k)
  case Nil
  then show ?case by simp
next
  case (Cons g gs)
  from Cons.prems have "\<forall>j\<ge>Suc k. fst (st' j) = fst (st j)" by simp
  from Cons.IH[OF this] Cons.prems show ?case by simp
qed

lemma regions_inv_update:
  "regions_inv fs st k gs \<Longrightarrow> j < length gs \<Longrightarrow> same_config (gs ! j) g
     \<Longrightarrow> buf_inv g (fst (st' (k + j))) \<Longrightarrow> \<forall>l. l \<noteq> k + j \<longrightarrow> fst (st' l) = fst (st l)
     \<Longrightarrow> regions_inv fs st' k (gs[j := g])"
proof (induction gs arbitrary: k j)
  case Nil
  then show ?case by simp
next
  case (Cons h gs)
  show ?case
  proof (cases j)
    case 0
    from Cons.prems(5) 0 have "\<forall>l\<ge>Suc k. fst (st' l) = fst (st l)" by simp
    then have tl: "regions_inv fs st' (Suc k) gs = regions_inv fs st (Suc k) gs"
      by (rule regions_inv_cong)
    have hg: "same_config h g" using Cons.prems(3) 0 by simp
    have "same_config (fs ! k) g" using Cons.prems(1) hg by (auto intro: same_config_trans)
    moreover have "geometry_ok g" "prepare_hook_ok g"
      using Cons.prems(1) hg by (simp_all add: same_config_geometry)
    ultimately show ?thesis using Cons.prems(1,4) 0 tl by simp
  next
    case (Suc j')
    have hd: "fst (st' k) = fst (st k)" using Cons.prems(5) Suc by simp
    have "regions_inv fs st' (Suc k) (gs[j' := g])"
      using Cons.prems Suc by (intro Cons.IH) simp_all
    with Cons.prems(1) hd Suc show ?thesis by simp
  qed
qed

lemma write_flush_others_total:
  assumes "regions_inv fs st k gs"
  shows "\<exists>r gs' w' evs. write_flush_others k i gs ret w = Some (r, gs', w')
      \<and> trace w' = trace w @ evs \<and> writes_ok fs st evs
      \<and> (\<forall>j. j < k \<longrightarrow> foldl obs_step st evs j = st j)
      \<and> length gs' = length gs \<and> regions_inv fs (foldl obs_step st evs) k gs'
      \<and> copied_bytes evs = [] \<and> (r \<longrightarrow> ret)"
  using assms
proof (induction gs arbitrary: k ret w st)
  case Nil
  have "trace w = trace w @ []" "writes_ok fs st []" by simp_all
  then show ?case
    by (intro exI[of _ ret] exI[of _ "[]"] exI[of _ w] exI[of _ "[]"]) simp
next
  case (Cons g gs)
  from Cons.prems have geo: "geometry_ok g" and ph: "prepare_hook_ok g"
    and cfg: "same_config (fs ! k) g" and inv: "buf_inv g (fst (st k))"
    and tl: "regions_inv fs st (Suc k) gs"
    by simp_all
  show ?case
  proof (cases "k = i")
    case True
    have "\<exists>r gs' w' evs. write_flush_others (Suc k) i gs ret w = Some (r, gs', w')
      \<and> trace w' = trace w @ evs \<and> writes_ok fs st evs
      \<and> (\<forall>j. j < (Suc k) \<longrightarrow> foldl obs_step st evs j = st j)
      \<and> length gs' = length gs \<and> regions_inv fs (foldl obs_step st evs) (Suc k) gs'
      \<and> copied_bytes evs = [] \<and> (r \<longrightarrow> ret)"
      using tl by (rule Cons.IH)
    then obtain r3 gs3 w3 e3 where
      rec: "write_flush_others (Suc k) i gs ret w = Some (r3, gs3, w3)"
      and t3: "trace w3 = trace w @ e3" and o3: "writes_ok fs st e3"
      and s3: "\<forall>j. j < Suc k \<longrightarrow> foldl obs_step st e3 j = st j"
      and l3: "length gs3 = length gs" and r3: "regions_inv fs (foldl obs_step st e3) (Suc k) gs3"
      and cb3: "copied_bytes e3 = []" and rr3: "r3 \<longrightarrow> ret"
      by blast
    have run: "write_flush_others k i (g # gs) ret w = Some (r3, g # gs3, w3)"
      using True rec by simp
    have ri: "regions_inv fs (foldl obs_step st e3) k (g # gs3)"
      using geo ph cfg inv r3 s3 by simp
    have ln: "length (g # gs3) = length (g # gs)" using l3 by simp
    have fr: "\<forall>j. j < k \<longrightarrow> foldl obs_step st e3 j = st j" using s3 by simp
    from run t3 o3 fr ln ri cb3 rr3 show ?thesis by blast
  next
    case False
    have "\<exists>r f' w' evs. flash_buffered_flush g k w = Some (r, f', w') \<and> trace w' = trace w @ evs
     \<and> writes_ok fs st evs \<and> (\<forall>j. j \<noteq> k \<longrightarrow> foldl obs_step st evs j = st j)
     \<and> fst (foldl obs_step st evs k) = (fst (fst (st k)), [])
     \<and> same_config g f' \<and> buf f' = buf g \<and> buf_inv f' (fst (foldl obs_step st evs k))
     \<and> (buf g \<noteq> None \<longrightarrow> buf_addr_low f' = UINT32_MAX \<and> buf_addr_high f' = 0)
     \<and> copied_bytes evs = []"
      using geo ph inv cfg by (rule flush_total)
    then obtain rf f1 w1 e1 where fl: "flash_buffered_flush g k w = Some (rf, f1, w1)"
      and t1: "trace w1 = trace w @ e1" and o1: "writes_ok fs st e1"
      and s1: "\<forall>j. j \<noteq> k \<longrightarrow> foldl obs_step st e1 j = st j"
      and p1: "fst (foldl obs_step st e1 k) = (fst (fst (st k)), [])"
      and c1: "same_config g f1" and i1: "buf_inv f1 (fst (foldl obs_step st e1 k))"
      and cb1: "copied_bytes e1 = []"
      by blast
    let ?st1 = "foldl obs_step st e1"
    obtain rd f2 w2 where dn: "flash_done f1 k w1 = (rd, f2, w2)"
      by (cases "flash_done f1 k w1") auto
    have pe: "snd (fst (?st1 k)) = []" using p1 by simp
    have "\<exists>evs. trace w2 = trace w1 @ evs \<and> writes_ok fs ?st1 evs
        \<and> foldl obs_step ?st1 evs = ?st1 \<and> copied_bytes evs = []"
      using dn pe by (rule done_total)
    then obtain e2 where t2: "trace w2 = trace w1 @ e2"
      and o2: "writes_ok fs ?st1 e2" and q2: "foldl obs_step ?st1 e2 = ?st1"
      and cb2: "copied_bytes e2 = []" by blast
    have c2: "same_config f1 f2" using dn by (rule flash_done_config)
    have i2: "buf_inv f2 (fst (?st1 k))" using dn i1 pe by (rule done_buf_inv)
    have "\<forall>j\<ge>Suc k. fst (?st1 j) = fst (st j)" using s1 by simp
    then have "regions_inv fs ?st1 (Suc k) gs = regions_inv fs st (Suc k) gs"
      by (rule regions_inv_cong)
    with tl have tl1: "regions_inv fs ?st1 (Suc k) gs" by simp
    have "\<exists>r gs' w' evs. write_flush_others (Suc k) i gs ((ret \<and> rf) \<and> rd) w2 = Some (r, gs', w')
      \<and> trace w' = trace w2 @ evs \<and> writes_ok fs ?st1 evs
      \<and> (\<forall>j. j < (Suc k) \<longrightarrow> foldl obs_step ?st1 evs j = ?st1 j)
      \<and> length gs' = length gs \<and> regions_inv fs (foldl obs_step ?st1 evs) (Suc k) gs'
      \<and> copied_bytes evs = [] \<and> (r \<longrightarrow> ((ret \<and> rf) \<and> rd))"
      using tl1 by (rule Cons.IH)
    then obtain r3 gs3 w3 e3 where
      rec: "write_flush_others (Suc k) i gs ((ret \<and> rf) \<and> rd) w2 = Some (r3, gs3, w3)"
      and t3: "trace w3 = trace w2 @ e3" and o3: "writes_ok fs ?st1 e3"
      and s3: "\<forall>j. j < Suc k \<longrightarrow> foldl obs_step ?st1 e3 j = ?st1 j"
      and l3: "length gs3 = length gs"
      and r3: "regions_inv fs (foldl obs_step ?st1 e3) (Suc k) gs3"
      and cb3: "copied_bytes e3 = []" and rr3: "r3 \<longrightarrow> (ret \<and> rf) \<and> rd"
      by blast
    let ?st3 = "foldl obs_step ?st1 e3"
    let ?evs = "e1 @ e2 @ e3"
    have run: "write_flush_others k i (g # gs) ret w = Some (r3, f2 # gs3, w3)"
      using False fl dn rec by simp
    have fo: "foldl obs_step st ?evs = ?st3" by (simp add: q2)
    have tr: "trace w3 = trace w @ ?evs" by (simp add: t1 t2 t3)
    have wo: "writes_ok fs st ?evs" using o1 o2 o3 by (simp add: writes_ok_append q2)
    have fr: "\<forall>j. j < k \<longrightarrow> foldl obs_step st ?evs j = st j"
      unfolding fo using s1 s3 by simp
    have cg: "same_config g f2" using c1 c2 by (rule same_config_trans)
    have "same_config (fs ! k) f2" using cfg cg by (rule same_config_trans)
    moreover have "geometry_ok f2" "prepare_hook_ok f2"
      using cg geo ph by (simp_all add: same_config_geometry)
    moreover have "buf_inv f2 (fst (?st3 k))" using i2 s3 by simp
    ultimately have ri: "regions_inv fs (foldl obs_step st ?evs) k (f2 # gs3)"
      unfolding fo using r3 by simp
    have ln: "length (f2 # gs3) = length (g # gs)" using l3 by simp
    have cb: "copied_bytes ?evs = []" using cb1 cb2 cb3 by simp
    have rr: "r3 \<longrightarrow> ret" using rr3 by blast
    from run tr wo fr ln ri cb rr show ?thesis by blast
  qed
qed

lemma same_config_contains:
  "same_config a b \<Longrightarrow> same_config a c \<Longrightarrow> contains_addr b x \<Longrightarrow> contains_addr c x"
  by (simp add: same_config_def contains_addr_def)

lemma write_loop_total:
  assumes ri: "regions_inv fs st 0 (flash t)" and lf: "length (flash t) = length fs"
    and nw: "unat dest + unat len < 2 ^ 32" and src: "unat len \<le> length src"
  shows "\<exists>r t' w' evs. write_loop env t dest src len ret w = Some (r, t', w')
      \<and> trace w' = trace w @ evs \<and> writes_ok fs st evs
      \<and> regions_inv fs (foldl obs_step st evs) 0 (flash t')
      \<and> length (flash t') = length fs \<and> flash_mode t' = flash_mode t
      \<and> copies_sound (in_region fs) dest src (unat len) evs
      \<and> (r \<longrightarrow> ret \<and> copies_all dest (unat len) evs)"
  using assms
proof (induction "unat len" arbitrary: t dest src len ret w st rule: less_induct)
  case less
  have triv: ?case if "write_loop env t dest src len ret w = Some (r, t, w)" "r \<longrightarrow> ret \<and> len = 0" for r
  proof -
    have "trace w = trace w @ []" "writes_ok fs st []" by simp_all
    moreover have "copies_sound (in_region fs) dest src (unat len) []"
      by (simp add: copies_sound_def)
    moreover have "r \<longrightarrow> ret \<and> copies_all dest (unat len) []"
      using that(2) by (auto simp: copies_all_def)
    ultimately show ?thesis using that(1) less.prems(1,2)
      by (intro exI[of _ r] exI[of _ t] exI[of _ w] exI[of _ "[]"]) simp
  qed
  show ?case
  proof (cases "len = 0")
    case True
    have a: "write_loop env t dest src len ret w = Some (ret, t, w)"
      using True by (subst write_loop.simps) simp
    have b: "ret \<longrightarrow> ret \<and> len = 0" using True by simp
    from a b show ?thesis by (rule triv)
  next
    case False
    show ?thesis
    proof (cases "target_flash_for_addr t dest")
      case None
      have a: "write_loop env t dest src len ret w = Some (False, t, w)"
        using False None by (subst write_loop.simps) simp
      have b: "False \<longrightarrow> ret \<and> len = 0" by simp
      from a b show ?thesis by (rule triv)
    next
      case (Some i)
      from target_flash_for_addr_Some[OF Some]
      have il: "i < length (flash t)" and ca: "contains_addr (flash t ! i) dest" by simp_all
      have "\<exists>r gs' w' evs. write_flush_others 0 i (flash t) ret w = Some (r, gs', w')
        \<and> trace w' = trace w @ evs \<and> writes_ok fs st evs
        \<and> (\<forall>j. j < 0 \<longrightarrow> foldl obs_step st evs j = st j)
        \<and> length gs' = length (flash t) \<and> regions_inv fs (foldl obs_step st evs) 0 gs'
        \<and> copied_bytes evs = [] \<and> (r \<longrightarrow> ret)"
        using less.prems(1) by (rule write_flush_others_total)
      then obtain ret1 fs1 w1 e1 where
        fo: "write_flush_others 0 i (flash t) ret w = Some (ret1, fs1, w1)"
        and t1: "trace w1 = trace w @ e1" and o1: "writes_ok fs st e1"
        and l1: "length fs1 = length (flash t)"
        and r1: "regions_inv fs (foldl obs_step st e1) 0 fs1"
        and cb1: "copied_bytes e1 = []" and rr1: "ret1 \<longrightarrow> ret"
        by blast
      let ?st1 = "foldl obs_step st e1"
      let ?g = "fs1 ! i"
      have il1: "i < length fs1" using il l1 by simp
      from regions_inv_nth[OF r1 il1]
      have geo: "geometry_ok ?g" and ph: "prepare_hook_ok ?g"
        and cfg: "same_config (fs ! i) ?g" and inv: "buf_inv ?g (fst (?st1 i))"
        by simp_all
      from regions_inv_nth[OF less.prems(1) il]
      have cfg0: "same_config (fs ! i) (flash t ! i)" by simp
      have ca1: "contains_addr ?g dest" using cfg0 cfg ca by (rule same_config_contains)
      define n where "n = write_local_end ?g dest len - dest"
      have "\<exists>r f' w' evs. write_region env ?g i dest src len ret1 w1 = Some (r, f', w')
        \<and> trace w' = trace w1 @ evs \<and> writes_ok fs ?st1 evs
        \<and> (\<forall>j. j \<noteq> i \<longrightarrow> fst (foldl obs_step ?st1 evs j) = fst (?st1 j))
        \<and> same_config ?g f' \<and> buf_inv f' (fst (foldl obs_step ?st1 evs i))
        \<and> copies_sound (\<lambda>j x. j = i) dest src (unat (write_local_end ?g dest len - dest)) evs
        \<and> (r \<longrightarrow> ret1 \<and> copies_all dest (unat (write_local_end ?g dest len - dest)) evs)"
        using geo ph inv cfg ca1 False less.prems(3,4) by (rule write_region_total)
      then obtain ret2 f1 w2 e2 where
        wr: "write_region env ?g i dest src len ret1 w1 = Some (ret2, f1, w2)"
        and t2: "trace w2 = trace w1 @ e2" and o2: "writes_ok fs ?st1 e2"
        and s2: "\<forall>j. j \<noteq> i \<longrightarrow> fst (foldl obs_step ?st1 e2 j) = fst (?st1 j)"
        and c2: "same_config ?g f1" and i2: "buf_inv f1 (fst (foldl obs_step ?st1 e2 i))"
        and cs2: "copies_sound (\<lambda>j x. j = i) dest src (unat n) e2"
        and cl2: "ret2 \<longrightarrow> ret1 \<and> copies_all dest (unat n) e2"
        unfolding n_def by blast
      let ?st2 = "foldl obs_step ?st1 e2"
      let ?t2 = "t\<lparr>flash := fs1[i := f1]\<rparr>"
      have r2: "regions_inv fs ?st2 0 (flash ?t2)"
        using regions_inv_update[OF r1 il1 c2, of ?st2] i2 s2 by simp
      have lf2: "length (flash ?t2) = length fs" using l1 less.prems(2) by simp
      have lim: "dest < start ?g + length_f ?g" using ca1 by (simp add: contains_addr_def)
      have npos: "0 < unat n" and nlen: "unat n \<le> unat len"
        and ue: "unat (write_local_end ?g dest len) = unat dest + unat n"
        and ul: "unat (len - n) = unat len - unat n"
        unfolding n_def write_local_end_def
        by (rule write_chunk_arith[OF lim False less.prems(3)])+
      have lt: "unat (len - n) < unat len" using npos nlen ul by linarith
      have nw2: "unat (write_local_end ?g dest len) + unat (len - n) < 2 ^ 32"
        using ue ul nlen less.prems(3) by linarith
      have src2: "unat (len - n) \<le> length (drop (unat n) src)"
        using ul less.prems(4) by simp
      have "\<exists>r t' w' evs. write_loop env ?t2 (write_local_end ?g dest len) (drop (unat n) src) (len - n) ret2 w2 = Some (r, t', w')
      \<and> trace w' = trace w2 @ evs \<and> writes_ok fs ?st2 evs
      \<and> regions_inv fs (foldl obs_step ?st2 evs) 0 (flash t')
      \<and> length (flash t') = length fs \<and> flash_mode t' = flash_mode ?t2
      \<and> copies_sound (in_region fs) (write_local_end ?g dest len) (drop (unat n) src) (unat (len - n)) evs
      \<and> (r \<longrightarrow> ret2 \<and> copies_all (write_local_end ?g dest len) (unat (len - n)) evs)"
        using lt r2 lf2 nw2 src2 by (rule less.hyps)
      then obtain r t3 w3 e3 where
        lp: "write_loop env ?t2 (write_local_end ?g dest len) (drop (unat n) src) (len - n)
               ret2 w2 = Some (r, t3, w3)"
        and t3: "trace w3 = trace w2 @ e3" and o3: "writes_ok fs ?st2 e3"
        and r3: "regions_inv fs (foldl obs_step ?st2 e3) 0 (flash t3)"
        and lf3: "length (flash t3) = length fs" and fm3: "flash_mode t3 = flash_mode ?t2"
        and cs3: "copies_sound (in_region fs) (write_local_end ?g dest len) (drop (unat n) src)
                    (unat (len - n)) e3"
        and cl3: "r \<longrightarrow> ret2 \<and> copies_all (write_local_end ?g dest len) (unat (len - n)) e3"
        by blast
      have run: "write_loop env t dest src len ret w = Some (r, t3, w3)"
        using False Some fo wr lp unfolding n_def by (subst write_loop.simps) simp
      let ?evs = "e1 @ e2 @ e3"
      have tr: "trace w3 = trace w @ ?evs" by (simp add: t1 t2 t3)
      have wo: "writes_ok fs st ?evs" using o1 o2 o3 by (simp add: writes_ok_append)
      have ri: "regions_inv fs (foldl obs_step st ?evs) 0 (flash t3)" using r3 by simp
      have fm: "flash_mode t3 = flash_mode t" using fm3 by simp
      have wn: "write_local_end ?g dest len = dest + word_of_nat (unat n)" by (simp add: n_def)
      have nsrc: "unat n \<le> length src" using nlen less.prems(4) by linarith
      have udn: "unat (dest + n) = unat dest + unat n" using ue by (simp add: n_def)
      have wle: "write_local_end ?g dest len \<le> start ?g + length_f ?g"
        by (simp add: write_local_end_def)
      have reg: "in_region fs j x" if "j = i" "unat (x - dest) < unat n" for j x
      proof -
        from in_chunk[OF udn that(2)] have dx: "dest \<le> x" and xe: "x < dest + n" by simp_all
        have "dest + n = write_local_end ?g dest len" by (simp add: n_def)
        with xe wle have "x < start ?g + length_f ?g" by simp
        moreover have "start ?g \<le> x" using ca1 dx by (auto simp: contains_addr_def)
        ultimately have "contains_addr ?g x" by (simp add: contains_addr_def)
        with cfg have "contains_addr (fs ! i) x" by (simp add: contains_addr_def same_config_def)
        with il less.prems(2) that(1) show ?thesis by (simp add: in_region_def)
      qed
      have s2': "copies_sound (in_region fs) dest src (unat len) e2"
        using cs2 nlen reg by (rule copies_sound_mono)
      have "copies_sound (in_region fs) (dest + word_of_nat (unat n)) (drop (unat n) src)
              (unat len - unat n) e3"
        using cs3 unfolding wn ul .
      then have s3': "copies_sound (in_region fs) dest src (unat len) e3"
        using nlen unat_lt_32[of len] nsrc by (rule copies_sound_shift)
      have cs: "copies_sound (in_region fs) dest src (unat len) ?evs"
        using s2' s3' cb1 by (simp add: copies_sound_def)
      have cl: "r \<longrightarrow> ret \<and> copies_all dest (unat len) ?evs"
      proof
        assume r
        with cl3 have ret2: ret2 and a3: "copies_all (write_local_end ?g dest len) (unat (len - n)) e3"
          by simp_all
        from ret2 cl2 have ret1: ret1 and a2: "copies_all dest (unat n) e2" by simp_all
        have "copies_all (dest + word_of_nat (unat n)) (unat len - unat n) e3"
          using a3 unfolding wn ul .
        with a2 have "copies_all dest (unat n + (unat len - unat n)) (e2 @ e3)"
          by (rule copies_all_append)
        then have "copies_all dest (unat len) (e2 @ e3)" using nlen by simp
        then have "copies_all dest (unat len) ?evs" using cb1 by (simp add: copies_all_def)
        with ret1 rr1 show "ret \<and> copies_all dest (unat len) ?evs" by simp
      qed
      from run tr wo ri lf3 fm cs cl show ?thesis by blast
    qed
  qed
qed

lemma regions_inv_intro:
  "(\<And>j. j < length gs \<Longrightarrow>
      geometry_ok (gs ! j) \<and> prepare_hook_ok (gs ! j) \<and> same_config (fs ! (k + j)) (gs ! j)
      \<and> buf_inv (gs ! j) (fst (st (k + j))))
   \<Longrightarrow> regions_inv fs st k gs"
proof (induction gs arbitrary: k)
  case Nil
  then show ?case by simp
next
  case (Cons g gs)
  have hd: "geometry_ok g \<and> prepare_hook_ok g \<and> same_config (fs ! k) g \<and> buf_inv g (fst (st k))"
    using Cons.prems[of 0] by simp
  have "regions_inv fs st (Suc k) gs"
  proof (rule Cons.IH)
    fix j assume "j < length gs"
    then show "geometry_ok (gs ! j) \<and> prepare_hook_ok (gs ! j)
       \<and> same_config (fs ! (Suc k + j)) (gs ! j) \<and> buf_inv (gs ! j) (fst (st (Suc k + j)))"
      using Cons.prems[of "Suc j"] by simp
  qed
  with hd show ?case by simp
qed

lemma fresh_target_regions_inv: "fresh_target t \<Longrightarrow> regions_inv (flash t) obs_0 0 (flash t)"
  by (rule regions_inv_intro) (simp add: fresh_target_def list_all_length buf_inv_def obs_0_def)

lemma enter_flash_mode_quiet:
  assumes "target_enter_flash_mode env t w = (ok, t1, w1)"
  shows "flash t1 = flash t" and "\<exists>evs. trace w1 = trace w @ evs \<and> list_all obs_quiet evs"
    and "flash_mode t1 = (ok \<or> flash_mode t)"
  using assms
  by (auto simp: target_enter_flash_mode_def call_hook_def call_reset_def
      split: if_splits option.splits prod.splits)

lemma target_flash_write_total:
  assumes ri: "regions_inv fs st 0 (flash t)" and lf: "length (flash t) = length fs"
    and nw: "unat dest + unat len < 2 ^ 32" and src: "unat len \<le> length src"
  shows "\<exists>r t' w' evs. target_flash_write env t dest src len w = Some (r, t', w')
      \<and> trace w' = trace w @ evs \<and> writes_ok fs st evs
      \<and> regions_inv fs (foldl obs_step st evs) 0 (flash t')
      \<and> length (flash t') = length fs
      \<and> (flash_mode t' \<or> \<not> flash_mode t \<and> foldl obs_step st evs = st)
      \<and> copies_sound (in_region fs) dest src (unat len) evs
      \<and> (r \<longrightarrow> copies_all dest (unat len) evs)"
proof -
  obtain ok t1 w1 where en: "target_enter_flash_mode env t w = (ok, t1, w1)"
    by (cases "target_enter_flash_mode env t w") auto
  have fl: "flash t1 = flash t" using en by (rule enter_flash_mode_quiet(1))
  have fm: "flash_mode t1 = (ok \<or> flash_mode t)" using en by (rule enter_flash_mode_quiet(3))
  from enter_flash_mode_quiet(2)[OF en] obtain e1 where t1: "trace w1 = trace w @ e1"
    and q1: "list_all obs_quiet e1" by blast
  have q: "foldl obs_step st e1 = st" "writes_ok fs st e1"
    using obs_quiet_list[OF q1, of st fs] by simp_all
  have cb1: "copied_bytes e1 = []" using q1 by (rule copied_bytes_obs_quiet)
  show ?thesis
  proof (cases ok)
    case False
    have run: "target_flash_write env t dest src len w = Some (False, t1, w1)"
      using en False by (simp add: target_flash_write_def)
    have ri1: "regions_inv fs (foldl obs_step st e1) 0 (flash t1)" using ri by (simp add: q fl)
    have lf1: "length (flash t1) = length fs" using lf fl by simp
    have m: "flash_mode t1 \<or> \<not> flash_mode t \<and> foldl obs_step st e1 = st"
      using fm False q(1) by simp
    have cs: "copies_sound (in_region fs) dest src (unat len) e1"
      using cb1 by (rule copies_sound_Nil)
    have cl: "False \<longrightarrow> copies_all dest (unat len) e1" by simp
    from run t1 q(2) ri1 lf1 m cs cl show ?thesis by blast
  next
    case True
    have run: "target_flash_write env t dest src len w = write_loop env t1 dest src len True w1"
      using en True by (simp add: target_flash_write_def)
    have ri1: "regions_inv fs st 0 (flash t1)" using ri by (simp add: fl)
    have lf1: "length (flash t1) = length fs" using lf fl by simp
    have "\<exists>r t' w' evs. write_loop env t1 dest src len True w1 = Some (r, t', w')
      \<and> trace w' = trace w1 @ evs \<and> writes_ok fs st evs
      \<and> regions_inv fs (foldl obs_step st evs) 0 (flash t')
      \<and> length (flash t') = length fs \<and> flash_mode t' = flash_mode t1
      \<and> copies_sound (in_region fs) dest src (unat len) evs
      \<and> (r \<longrightarrow> True \<and> copies_all dest (unat len) evs)"
      using ri1 lf1 nw src by (rule write_loop_total)
    then obtain r t3 w3 e3 where lp: "write_loop env t1 dest src len True w1 = Some (r, t3, w3)"
      and t3: "trace w3 = trace w1 @ e3" and o3: "writes_ok fs st e3"
      and r3: "regions_inv fs (foldl obs_step st e3) 0 (flash t3)"
      and lf3: "length (flash t3) = length fs" and fm3: "flash_mode t3 = flash_mode t1"
      and cs3: "copies_sound (in_region fs) dest src (unat len) e3"
      and cl3: "r \<longrightarrow> True \<and> copies_all dest (unat len) e3"
      by blast
    have run': "target_flash_write env t dest src len w = Some (r, t3, w3)"
      using run lp by simp
    have tr: "trace w3 = trace w @ (e1 @ e3)" by (simp add: t1 t3)
    have wo: "writes_ok fs st (e1 @ e3)" using o3 by (simp add: writes_ok_append q)
    have ri3: "regions_inv fs (foldl obs_step st (e1 @ e3)) 0 (flash t3)" using r3 by (simp add: q)
    have m: "flash_mode t3 \<or> \<not> flash_mode t \<and> foldl obs_step st (e1 @ e3) = st"
      using fm3 fm True by simp
    have cs: "copies_sound (in_region fs) dest src (unat len) (e1 @ e3)"
      using cs3 cb1 by (simp add: copies_sound_def)
    have cl: "r \<longrightarrow> copies_all dest (unat len) (e1 @ e3)"
      using cl3 cb1 by (simp add: copies_all_def)
    from run' tr wo ri3 lf3 m cs cl show ?thesis by blast
  qed
qed

lemma write_seq_total:
  assumes "regions_inv fs st 0 (flash t)" and "length (flash t) = length fs"
    and "list_all request_ok reqs" and "flash_mode t \<or> (\<forall>j. snd (fst (st j)) = [])"
  shows "\<exists>outs t' w'. write_seq env t reqs w = Some (outs, t', w')
      \<and> trace w' = trace w @ all_events outs \<and> writes_ok fs st (all_events outs)
      \<and> length outs = length reqs \<and> list_all2 (copies_ok fs) reqs outs
      \<and> regions_inv fs (foldl obs_step st (all_events outs)) 0 (flash t')
      \<and> length (flash t') = length fs
      \<and> (flash_mode t' \<or> (\<forall>j. snd (fst (foldl obs_step st (all_events outs) j)) = []))"
  using assms
proof (induction reqs arbitrary: t w st)
  case Nil
  then show ?case by (simp add: all_events_def)
next
  case (Cons q reqs)
  obtain dest src len where q: "q = (dest, src, len)" by (cases q) auto
  from Cons.prems(3) q have nw: "unat dest + unat len < 2 ^ 32" and src: "unat len \<le> length src"
    and rest: "list_all request_ok reqs" by simp_all
  have "\<exists>r t' w' evs. target_flash_write env t dest src len w = Some (r, t', w')
      \<and> trace w' = trace w @ evs \<and> writes_ok fs st evs
      \<and> regions_inv fs (foldl obs_step st evs) 0 (flash t')
      \<and> length (flash t') = length fs
      \<and> (flash_mode t' \<or> \<not> flash_mode t \<and> foldl obs_step st evs = st)
      \<and> copies_sound (in_region fs) dest src (unat len) evs
      \<and> (r \<longrightarrow> copies_all dest (unat len) evs)"
    using Cons.prems(1,2) nw src by (rule target_flash_write_total)
  then obtain r t1 w1 e1 where wr: "target_flash_write env t dest src len w = Some (r, t1, w1)"
    and t1: "trace w1 = trace w @ e1" and o1: "writes_ok fs st e1"
    and r1: "regions_inv fs (foldl obs_step st e1) 0 (flash t1)"
    and l1: "length (flash t1) = length fs"
    and m1: "flash_mode t1 \<or> \<not> flash_mode t \<and> foldl obs_step st e1 = st"
    and cs1: "copies_sound (in_region fs) dest src (unat len) e1"
    and cl1: "r \<longrightarrow> copies_all dest (unat len) e1"
    by blast
  let ?st1 = "foldl obs_step st e1"
  have inv1: "flash_mode t1 \<or> (\<forall>j. snd (fst (?st1 j)) = [])"
    using m1 Cons.prems(4) by auto
  have "\<exists>outs t' w'. write_seq env t1 reqs w1 = Some (outs, t', w')
      \<and> trace w' = trace w1 @ all_events outs \<and> writes_ok fs ?st1 (all_events outs)
      \<and> length outs = length reqs \<and> list_all2 (copies_ok fs) reqs outs
      \<and> regions_inv fs (foldl obs_step ?st1 (all_events outs)) 0 (flash t')
      \<and> length (flash t') = length fs
      \<and> (flash_mode t' \<or> (\<forall>j. snd (fst (foldl obs_step ?st1 (all_events outs) j)) = []))"
    using r1 l1 rest inv1 by (rule Cons.IH)
  then obtain outs t2 w2 where sq: "write_seq env t1 reqs w1 = Some (outs, t2, w2)"
    and t2: "trace w2 = trace w1 @ all_events outs"
    and o2: "writes_ok fs ?st1 (all_events outs)"
    and l2: "length outs = length reqs" and c2: "list_all2 (copies_ok fs) reqs outs"
    and r2: "regions_inv fs (foldl obs_step ?st1 (all_events outs)) 0 (flash t2)"
    and lf2: "length (flash t2) = length fs"
    and m2: "flash_mode t2 \<or> (\<forall>j. snd (fst (foldl obs_step ?st1 (all_events outs) j)) = [])"
    by blast
  have run: "write_seq env t (q # reqs) w = Some ((r, e1) # outs, t2, w2)"
    using wr sq by (simp add: q t1)
  have ae: "all_events ((r, e1) # outs) = e1 @ all_events outs" by (simp add: all_events_def)
  have tr: "trace w2 = trace w @ all_events ((r, e1) # outs)" by (simp add: ae t1 t2)
  have wo: "writes_ok fs st (all_events ((r, e1) # outs))"
    using o1 o2 by (simp add: ae writes_ok_append)
  have ln: "length ((r, e1) # outs) = length (q # reqs)" using l2 by simp
  have co: "list_all2 (copies_ok fs) (q # reqs) ((r, e1) # outs)"
    using c2 cs1 cl1 by (simp add: q)
  have ri: "regions_inv fs (foldl obs_step st (all_events ((r, e1) # outs))) 0 (flash t2)"
    using r2 by (simp add: ae)
  have m: "flash_mode t2
      \<or> (\<forall>j. snd (fst (foldl obs_step st (all_events ((r, e1) # outs)) j)) = [])"
    using m2 by (simp add: ae)
  from run tr wo ln co ri lf2 m show ?case by blast
qed

lemma complete_all_total:
  assumes "regions_inv fs st k gs"
  shows "\<exists>r gs' w' evs. complete_all k gs ret w = Some (r, gs', w')
      \<and> trace w' = trace w @ evs \<and> writes_ok fs st evs
      \<and> (\<forall>j. j < k \<longrightarrow> foldl obs_step st evs j = st j)
      \<and> (\<forall>j. k \<le> j \<and> j < k + length gs \<longrightarrow> snd (fst (foldl obs_step st evs j)) = [])"
  using assms
proof (induction gs arbitrary: k ret w st)
  case Nil
  have "trace w = trace w @ []" "writes_ok fs st []" by simp_all
  moreover have "\<forall>j. k \<le> j \<and> j < k + length ([] :: 'a target_flash list)
      \<longrightarrow> snd (fst (foldl obs_step st [] j)) = []" by auto
  moreover have "complete_all k [] ret w = Some (ret, [], w)" by simp
  moreover have "\<forall>j. j < k \<longrightarrow> foldl obs_step st [] j = st j" by simp
  ultimately show ?case by blast
next
  case (Cons g gs)
  from Cons.prems have geo: "geometry_ok g" and ph: "prepare_hook_ok g"
    and cfg: "same_config (fs ! k) g" and inv: "buf_inv g (fst (st k))"
    and tl: "regions_inv fs st (Suc k) gs"
    by simp_all
  have "\<exists>r f' w' evs. flash_buffered_flush g k w = Some (r, f', w') \<and> trace w' = trace w @ evs
     \<and> writes_ok fs st evs \<and> (\<forall>j. j \<noteq> k \<longrightarrow> foldl obs_step st evs j = st j)
     \<and> fst (foldl obs_step st evs k) = (fst (fst (st k)), [])
     \<and> same_config g f' \<and> buf f' = buf g \<and> buf_inv f' (fst (foldl obs_step st evs k))
     \<and> (buf g \<noteq> None \<longrightarrow> buf_addr_low f' = UINT32_MAX \<and> buf_addr_high f' = 0)
     \<and> copied_bytes evs = []"
    using geo ph inv cfg by (rule flush_total)
  then obtain rf f1 w1 e1 where fl: "flash_buffered_flush g k w = Some (rf, f1, w1)"
    and t1: "trace w1 = trace w @ e1" and o1: "writes_ok fs st e1"
    and s1: "\<forall>j. j \<noteq> k \<longrightarrow> foldl obs_step st e1 j = st j"
    and p1: "fst (foldl obs_step st e1 k) = (fst (fst (st k)), [])"
    by blast
  let ?st1 = "foldl obs_step st e1"
  obtain rd f2 w2 where dn: "flash_done f1 k w1 = (rd, f2, w2)"
    by (cases "flash_done f1 k w1") auto
  have pe: "snd (fst (?st1 k)) = []" using p1 by simp
  have "\<exists>evs. trace w2 = trace w1 @ evs \<and> writes_ok fs ?st1 evs
      \<and> foldl obs_step ?st1 evs = ?st1 \<and> copied_bytes evs = []"
    using dn pe by (rule done_total)
  then obtain e2 where t2: "trace w2 = trace w1 @ e2"
    and o2: "writes_ok fs ?st1 e2" and q2: "foldl obs_step ?st1 e2 = ?st1"
    by blast
  have "\<forall>j\<ge>Suc k. fst (?st1 j) = fst (st j)" using s1 by simp
  then have "regions_inv fs ?st1 (Suc k) gs = regions_inv fs st (Suc k) gs"
    by (rule regions_inv_cong)
  with tl have tl1: "regions_inv fs ?st1 (Suc k) gs" by simp
  have "\<exists>r gs' w' evs. complete_all (Suc k) gs ((ret \<and> rf) \<and> rd) w2 = Some (r, gs', w')
      \<and> trace w' = trace w2 @ evs \<and> writes_ok fs ?st1 evs
      \<and> (\<forall>j. j < (Suc k) \<longrightarrow> foldl obs_step ?st1 evs j = ?st1 j)
      \<and> (\<forall>j. (Suc k) \<le> j \<and> j < (Suc k) + length gs \<longrightarrow> snd (fst (foldl obs_step ?st1 evs j)) = [])"
    using tl1 by (rule Cons.IH)
  then obtain r3 gs3 w3 e3 where
    rec: "complete_all (Suc k) gs ((ret \<and> rf) \<and> rd) w2 = Some (r3, gs3, w3)"
    and t3: "trace w3 = trace w2 @ e3" and o3: "writes_ok fs ?st1 e3"
    and s3: "\<forall>j. j < Suc k \<longrightarrow> foldl obs_step ?st1 e3 j = ?st1 j"
    and p3: "\<forall>j. Suc k \<le> j \<and> j < Suc k + length gs
               \<longrightarrow> snd (fst (foldl obs_step ?st1 e3 j)) = []"
    by blast
  let ?st3 = "foldl obs_step ?st1 e3"
  let ?evs = "e1 @ e2 @ e3"
  have run: "complete_all k (g # gs) ret w = Some (r3, f2 # gs3, w3)"
    using fl dn rec by simp
  have fo: "foldl obs_step st ?evs = ?st3" by (simp add: q2)
  have tr: "trace w3 = trace w @ ?evs" by (simp add: t1 t2 t3)
  have wo: "writes_ok fs st ?evs" using o1 o2 o3 by (simp add: writes_ok_append q2)
  have fr: "\<forall>j. j < k \<longrightarrow> foldl obs_step st ?evs j = st j"
    unfolding fo using s1 s3 by simp
  have pk: "snd (fst (?st3 k)) = []" using s3 pe by simp
  have pn: "\<forall>j. k \<le> j \<and> j < k + length (g # gs) \<longrightarrow> snd (fst (foldl obs_step st ?evs j)) = []"
    unfolding fo
  proof (intro allI impI)
    fix j assume j: "k \<le> j \<and> j < k + length (g # gs)"
    show "snd (fst (?st3 j)) = []"
    proof (cases "j = k")
      case True
      with pk show ?thesis by simp
    next
      case False
      with j have "Suc k \<le> j \<and> j < Suc k + length gs" by simp
      with p3 show ?thesis by blast
    qed
  qed
  from run tr wo fr pn show ?case by blast
qed

lemma exit_flash_mode_quiet:
  assumes "target_exit_flash_mode env t w = (ok, t1, w1)"
  shows "\<exists>evs. trace w1 = trace w @ evs \<and> list_all obs_quiet evs"
  using assms
  by (auto simp: target_exit_flash_mode_def call_hook_def call_reset_def
      split: if_splits option.splits prod.splits)

lemma target_flash_complete_total:
  assumes ri: "regions_inv fs st 0 (flash t)"
    and m: "flash_mode t \<or> (\<forall>j. snd (fst (st j)) = [])"
  shows "\<exists>r t' w' evs. target_flash_complete env t w = Some (r, t', w')
      \<and> trace w' = trace w @ evs \<and> writes_ok fs st evs
      \<and> nothing_pending (length (flash t)) (foldl obs_step st evs)"
proof (cases "flash_mode t")
  case False
  have run: "target_flash_complete env t w = Some (False, t, w)"
    using False by (simp add: target_flash_complete_def)
  have c: "trace w = trace w @ []" "writes_ok fs st []" by simp_all
  from m False have "\<forall>j. snd (fst (st j)) = []" by simp
  then have np: "nothing_pending (length (flash t)) (foldl obs_step st [])"
    by (simp add: nothing_pending_def list_all_iff)
  from run c np show ?thesis
    by (intro exI[of _ False] exI[of _ t] exI[of _ w] exI[of _ "[]"]) (intro conjI)
next
  case True
  have "\<exists>r gs' w' evs. complete_all 0 (flash t) True w = Some (r, gs', w')
      \<and> trace w' = trace w @ evs \<and> writes_ok fs st evs
      \<and> (\<forall>j. j < 0 \<longrightarrow> foldl obs_step st evs j = st j)
      \<and> (\<forall>j. 0 \<le> j \<and> j < 0 + length (flash t) \<longrightarrow> snd (fst (foldl obs_step st evs j)) = [])"
    using ri by (rule complete_all_total)
  then obtain r gs w1 e1 where ca: "complete_all 0 (flash t) True w = Some (r, gs, w1)"
    and t1: "trace w1 = trace w @ e1" and o1: "writes_ok fs st e1"
    and p1: "\<forall>j. 0 \<le> j \<and> j < 0 + length (flash t) \<longrightarrow> snd (fst (foldl obs_step st e1 j)) = []"
    by (elim exE conjE) (rule that)
  let ?st1 = "foldl obs_step st e1"
  obtain rx t2 w2 where ex: "target_exit_flash_mode env (t\<lparr>flash := gs\<rparr>) w1 = (rx, t2, w2)"
    by (cases "target_exit_flash_mode env (t\<lparr>flash := gs\<rparr>) w1") auto
  from exit_flash_mode_quiet[OF ex] obtain e2 where t2: "trace w2 = trace w1 @ e2"
    and q2: "list_all obs_quiet e2" by blast
  have q: "foldl obs_step ?st1 e2 = ?st1" "writes_ok fs ?st1 e2"
    using obs_quiet_list[OF q2, of ?st1 fs] by simp_all
  have run: "target_flash_complete env t w = Some (r, t2, w2)"
    using True ca ex by (simp add: target_flash_complete_def)
  have tr: "trace w2 = trace w @ (e1 @ e2)" by (simp add: t1 t2)
  have wo: "writes_ok fs st (e1 @ e2)" using o1 q(2) by (simp add: writes_ok_append)
  have fo: "foldl obs_step st (e1 @ e2) = ?st1" by (simp add: q(1))
  from p1 have "\<forall>j<length (flash t). snd (fst (?st1 j)) = []" by simp
  then have np: "nothing_pending (length (flash t)) (foldl obs_step st (e1 @ e2))"
    unfolding fo by (simp add: nothing_pending_def list_all_iff)
  from run tr wo np show ?thesis
    by (intro exI[of _ r] exI[of _ t2] exI[of _ w2] exI[of _ "e1 @ e2"]) (intro conjI)
qed

section \<open>Write: the claim\<close>

lemma pow2_exp: "k < 32 \<Longrightarrow> pow2 (2 ^ k)"
  unfolding pow2_def by (rule bexI[of _ k]) simp_all

lemma pow2_small: "pow2 4" "pow2 8" "pow2 16"
proof -
  have "pow2 (2 ^ 2)" "pow2 (2 ^ 3)" "pow2 (2 ^ 4)" by (rule pow2_exp, simp)+
  then show "pow2 4" "pow2 8" "pow2 16" by simp_all
qed

lemma fresh_target_S: "fresh_target target_S"
  using pow2_small
  by (simp add: fresh_target_def geometry_ok_def prepare_hook_ok_def ex_defs)

lemma write_seq_target_S:
  "map_option fst
     (write_seq env_A target_S
        [(0x100E, [1, 2, 3, 4], 4), (0x1013, [5, 6, 7], 3), (0x1018, [9], 1)] world_0) =
   Some [(True,
          [Reset, CallFlush 1, CallDone 1, CallBufferedWrite 0, Malloc 0 8 True,
           CallFlush 0, Memset 0 255 8, Memcpy 0 0x100E 6 [1, 2], CallFlush 0,
           Prepare 0 True, FlushRange 0 0x100E 0x1010,
           Write 0 0x100C [255, 255, 1, 2] 4 0, CallDone 0, Done 0 True, Free 0,
           CallFlush 0, CallDone 0, CallBufferedWrite 1, Malloc 1 8 True,
           CallFlush 1, Memset 1 255 8, Memcpy 1 0x1010 0 [3, 4]]),
         (True,
          [CallFlush 0, CallDone 0, CallBufferedWrite 1, Memcpy 1 0x1013 3 [5, 6, 7]]),
         (True,
          [CallFlush 0, CallDone 0, CallBufferedWrite 1, CallFlush 1, Prepare 1 True,
           FlushRange 1 0x1010 0x1016, Write 1 0x1010 [3, 4, 255, 5] 4 0,
           Write 1 0x1014 [6, 7, 255, 255] 4 0, Memset 1 255 8,
           Memcpy 1 0x1018 0 [9]])]"
  by (simp add: ex_defs run_defs)

lemma write_complete_target_S:
  "(case write_seq env_A target_S
           [(0x100E, [1, 2, 3, 4], 4), (0x1013, [5, 6, 7], 3), (0x1018, [9], 1)] world_0 of
      None \<Rightarrow> None
    | Some (outs, t1, w1) \<Rightarrow> result_trace (target_flash_complete env_A t1 w1)) =
   Some [Reset, CallFlush 1, CallDone 1, CallBufferedWrite 0, Malloc 0 8 True,
         CallFlush 0, Memset 0 255 8, Memcpy 0 0x100E 6 [1, 2], CallFlush 0,
         Prepare 0 True, FlushRange 0 0x100E 0x1010,
         Write 0 0x100C [255, 255, 1, 2] 4 0, CallDone 0, Done 0 True, Free 0,
         CallFlush 0, CallDone 0, CallBufferedWrite 1, Malloc 1 8 True,
         CallFlush 1, Memset 1 255 8, Memcpy 1 0x1010 0 [3, 4],
         CallFlush 0, CallDone 0, CallBufferedWrite 1, Memcpy 1 0x1013 3 [5, 6, 7],
         CallFlush 0, CallDone 0, CallBufferedWrite 1, CallFlush 1, Prepare 1 True,
         FlushRange 1 0x1010 0x1016, Write 1 0x1010 [3, 4, 255, 5] 4 0,
         Write 1 0x1014 [6, 7, 255, 255] 4 0, Memset 1 255 8,
         Memcpy 1 0x1018 0 [9],
         CallFlush 0, CallDone 0, CallFlush 1, FlushRange 1 0x1018 0x1019,
         Write 1 0x1018 [9, 255, 255, 255] 4 0, CallDone 1, Done 1 True, Free 1,
         Reset]"
  by (simp add: ex_defs run_defs)

text \<open>
  Claim C1, as stated, fails for a region whose write size is not a power of two, which
  the data model allows (it asks for \<open>writesize \<le> writebufsize\<close> and a power of two
  only for \<open>writebufsize\<close>).  Here the write size is 12 and the page 16 bytes.  The call
  copies 15 bytes to \<open>0x1001\<close> and, at the end of the region, flushes the dirty range
  \<open>[0x1001, 0x1010)\<close>: \<open>0x1001 & ~(12 - 1)\<close> is \<open>0x1000\<close>, so the length is 16, the first
  call of the write primitive passes the bytes 0 to 11 of the buffer and the second the
  12 bytes from byte 12 of the 16 byte buffer, 8 of them beyond the allocation: they
  are neither bytes of the caller nor the erased value.  The model has no value for
  such a read, so the call has no result.
\<close>

theorem write_size_not_power_of_two_counterexample:
  "pow2 (writebufsize region_W) \<and> writesize region_W \<le> writebufsize region_W
   \<and> prepare_hook_ok region_W \<and> buf region_W = None
   \<and> request_ok (0x1001, [1, 2, 3, 4, 5, 6, 7, 8, 9, 10, 11, 12, 13, 14, 15], 15)
   \<and> 0x1001 AND NOT (writesize region_W - 1) = (0x1000 :: 32 word)
   \<and> slice [255, 1, 2, 3, 4, 5, 6, 7, 8, 9, 10, 11, 12, 13, 14, 15] 0
         (unat (writesize region_W)) = Some [255, 1, 2, 3, 4, 5, 6, 7, 8, 9, 10, 11]
   \<and> slice [255, 1, 2, 3, 4, 5, 6, 7, 8, 9, 10, 11, 12, 13, 14, 15] 12
         (unat (writesize region_W)) = None
   \<and> target_flash_write env_A target_W 0x1001
         [1, 2, 3, 4, 5, 6, 7, 8, 9, 10, 11, 12, 13, 14, 15] 15 world_0 = None
   \<and> write_seq env_A target_W
         [(0x1001, [1, 2, 3, 4, 5, 6, 7, 8, 9, 10, 11, 12, 13, 14, 15], 15)] world_0 = None"
proof -
  have g: "pow2 (writebufsize region_W)" "writesize region_W \<le> writebufsize region_W"
    "prepare_hook_ok region_W" "buf region_W = None"
    using pow2_small by (simp_all add: region_W_def prepare_hook_ok_def ex_defs)
  have r: "request_ok (0x1001, [1, 2, 3, 4, 5, 6, 7, 8, 9, 10, 11, 12, 13, 14, 15], 15)"
    by simp
  have a: "0x1001 AND NOT (writesize region_W - 1) = (0x1000 :: 32 word)"
    by (simp add: region_W_def ex_defs)
  have s: "slice [255, 1, 2, 3, 4, 5, 6, 7, 8, 9, 10, 11, 12, 13, 14, 15] 0
         (unat (writesize region_W)) = Some [255, 1, 2, 3, 4, 5, 6, 7, 8, 9, 10, 11]"
    "slice [255, 1, 2, 3, 4, 5, 6, 7, 8, 9, 10, 11, 12, 13, 14, 15] 12
         (unat (writesize region_W)) = None"
    by (simp_all add: region_W_def ex_defs slice_def)
  have w: "target_flash_write env_A target_W 0x1001
         [1, 2, 3, 4, 5, 6, 7, 8, 9, 10, 11, 12, 13, 14, 15] 15 world_0 = None"
    by (simp add: region_W_def target_W_def ex_defs run_defs)
  then have q: "write_seq env_A target_W
         [(0x1001, [1, 2, 3, 4, 5, 6, 7, 8, 9, 10, 11, 12, 13, 14, 15], 15)] world_0 = None"
    by simp
  from g r a s w q show ?thesis by (intro conjI)
qed

text \<open>
  Claim C1, amended.  A target whose regions are well formed (both write sizes powers of
  two, \<open>writesize \<le> writebufsize\<close>), whose prepare hooks succeed and none of whose
  regions holds a scratch buffer yet, receives any sequence of \<open>target_flash_write\<close>
  calls, each for a range that lies in the 32 bit address space with a source at least as
  long, and then a call of \<open>target_flash_complete\<close>.  Entering flash mode, the allocation
  and the write primitive may fail.  Then:

  \<^item> every call returns;
  \<^item> every byte a call copies into a scratch buffer is the byte of its source for the
    address it is copied toward, that address lies in the request's range and in the
    region whose buffer receives it, and a call that returns true has copied all of its
    \<open>len\<close> bytes, to the addresses \<open>dest, \<dots>, dest + len - 1\<close> in this order
    (\<open>copies_ok\<close>);
  \<^item> every call of a region's write primitive passes \<open>writesize\<close> bytes to an address
    that is a multiple of \<open>writesize\<close>, each of them, at its address, the byte last
    copied toward that address since the region's buffer was filled with the erased
    value, or the erased value if none was; and every byte passed outside the dirty
    range \<open>[buf_addr_low, buf_addr_high)\<close> of its flush is the erased value
    (\<open>writes_ok\<close>, at \<open>Write\<close>);
  \<^item> a buffer is filled with the erased value, or freed, only when every address copied
    toward it has since been passed to the write primitive (\<open>writes_ok\<close>, at \<open>Memset\<close>
    and \<open>Free\<close>), and after \<open>target_flash_complete\<close> no copied address is left that has
    not been passed to the write primitive (\<open>nothing_pending\<close>).
\<close>

theorem target_flash_write_delivers_source_bytes:
  assumes "fresh_target t" and "list_all request_ok reqs"
  shows "\<exists>outs t1 w1 rc t2 w2.
      write_seq env t reqs w = Some (outs, t1, w1)
    \<and> length outs = length reqs
    \<and> trace w1 = trace w @ all_events outs
    \<and> list_all2 (copies_ok (flash t)) reqs outs
    \<and> target_flash_complete env t1 w1 = Some (rc, t2, w2)
    \<and> take (length (trace w1)) (trace w2) = trace w1
    \<and> writes_ok (flash t) obs_0 (drop (length (trace w)) (trace w2))
    \<and> nothing_pending (length (flash t))
          (foldl obs_step obs_0 (drop (length (trace w)) (trace w2)))"
proof -
  let ?fs = "flash t"
  have ri: "regions_inv ?fs obs_0 0 (flash t)" using assms(1) by (rule fresh_target_regions_inv)
  have lf: "length (flash t) = length ?fs" by simp
  have m0: "flash_mode t \<or> (\<forall>j. snd (fst (obs_0 j)) = [])" by (simp add: obs_0_def)
  have "\<exists>outs t' w'. write_seq env t reqs w = Some (outs, t', w')
      \<and> trace w' = trace w @ all_events outs \<and> writes_ok ?fs obs_0 (all_events outs)
      \<and> length outs = length reqs \<and> list_all2 (copies_ok ?fs) reqs outs
      \<and> regions_inv ?fs (foldl obs_step obs_0 (all_events outs)) 0 (flash t')
      \<and> length (flash t') = length ?fs
      \<and> (flash_mode t' \<or> (\<forall>j. snd (fst (foldl obs_step obs_0 (all_events outs) j)) = []))"
    using ri lf assms(2) m0 by (rule write_seq_total)
  then obtain outs t1 w1 where sq: "write_seq env t reqs w = Some (outs, t1, w1)"
    and t1: "trace w1 = trace w @ all_events outs"
    and o1: "writes_ok ?fs obs_0 (all_events outs)"
    and l1: "length outs = length reqs" and c1: "list_all2 (copies_ok ?fs) reqs outs"
    and r1: "regions_inv ?fs (foldl obs_step obs_0 (all_events outs)) 0 (flash t1)"
    and lf1: "length (flash t1) = length ?fs"
    and m1: "flash_mode t1 \<or> (\<forall>j. snd (fst (foldl obs_step obs_0 (all_events outs) j)) = [])"
    by (elim exE conjE) (rule that)
  let ?st1 = "foldl obs_step obs_0 (all_events outs)"
  have "\<exists>r t' w' evs. target_flash_complete env t1 w1 = Some (r, t', w')
      \<and> trace w' = trace w1 @ evs \<and> writes_ok ?fs ?st1 evs
      \<and> nothing_pending (length (flash t1)) (foldl obs_step ?st1 evs)"
    using r1 m1 by (rule target_flash_complete_total)
  then obtain rc t2 w2 e2 where co: "target_flash_complete env t1 w1 = Some (rc, t2, w2)"
    and t2: "trace w2 = trace w1 @ e2" and o2: "writes_ok ?fs ?st1 e2"
    and n2: "nothing_pending (length (flash t1)) (foldl obs_step ?st1 e2)"
    by (elim exE conjE) (rule that)
  have dr: "drop (length (trace w)) (trace w2) = all_events outs @ e2" by (simp add: t1 t2)
  have tk: "take (length (trace w1)) (trace w2) = trace w1" by (simp add: t2)
  have wo: "writes_ok ?fs obs_0 (drop (length (trace w)) (trace w2))"
    unfolding dr using o1 o2 by (simp add: writes_ok_append)
  have np: "nothing_pending (length ?fs) (foldl obs_step obs_0 (drop (length (trace w)) (trace w2)))"
    unfolding dr using n2 lf1 by simp
  from sq l1 t1 c1 co tk wo np show ?thesis
    by (intro exI[of _ outs] exI[of _ t1] exI[of _ w1] exI[of _ rc] exI[of _ t2] exI[of _ w2])
       (intro conjI)
qed

theorem target_flash_write_delivers_source_bytes_witness:
  "fresh_target target_S
   \<and> list_all request_ok [(0x100E, [1, 2, 3, 4], 4), (0x1013, [5, 6, 7], 3), (0x1018, [9], 1)]
   \<and> list_all2 (copies_ok (flash target_S))
        [(0x100E, [1, 2, 3, 4], 4), (0x1013, [5, 6, 7], 3), (0x1018, [9], 1)]
        [(True,
          [Reset, CallFlush 1, CallDone 1, CallBufferedWrite 0, Malloc 0 8 True,
           CallFlush 0, Memset 0 255 8, Memcpy 0 0x100E 6 [1, 2], CallFlush 0,
           Prepare 0 True, FlushRange 0 0x100E 0x1010,
           Write 0 0x100C [255, 255, 1, 2] 4 0, CallDone 0, Done 0 True, Free 0,
           CallFlush 0, CallDone 0, CallBufferedWrite 1, Malloc 1 8 True,
           CallFlush 1, Memset 1 255 8, Memcpy 1 0x1010 0 [3, 4]]),
         (True,
          [CallFlush 0, CallDone 0, CallBufferedWrite 1, Memcpy 1 0x1013 3 [5, 6, 7]]),
         (True,
          [CallFlush 0, CallDone 0, CallBufferedWrite 1, CallFlush 1, Prepare 1 True,
           FlushRange 1 0x1010 0x1016, Write 1 0x1010 [3, 4, 255, 5] 4 0,
           Write 1 0x1014 [6, 7, 255, 255] 4 0, Memset 1 255 8,
           Memcpy 1 0x1018 0 [9]])]
   \<and> writes_ok (flash target_S) obs_0
        [Reset, CallFlush 1, CallDone 1, CallBufferedWrite 0, Malloc 0 8 True,
         CallFlush 0, Memset 0 255 8, Memcpy 0 0x100E 6 [1, 2], CallFlush 0,
         Prepare 0 True, FlushRange 0 0x100E 0x1010,
         Write 0 0x100C [255, 255, 1, 2] 4 0, CallDone 0, Done 0 True, Free 0,
         CallFlush 0, CallDone 0, CallBufferedWrite 1, Malloc 1 8 True,
         CallFlush 1, Memset 1 255 8, Memcpy 1 0x1010 0 [3, 4],
         CallFlush 0, CallDone 0, CallBufferedWrite 1, Memcpy 1 0x1013 3 [5, 6, 7],
         CallFlush 0, CallDone 0, CallBufferedWrite 1, CallFlush 1, Prepare 1 True,
         FlushRange 1 0x1010 0x1016, Write 1 0x1010 [3, 4, 255, 5] 4 0,
         Write 1 0x1014 [6, 7, 255, 255] 4 0, Memset 1 255 8,
         Memcpy 1 0x1018 0 [9],
         CallFlush 0, CallDone 0, CallFlush 1, FlushRange 1 0x1018 0x1019,
         Write 1 0x1018 [9, 255, 255, 255] 4 0, CallDone 1, Done 1 True, Free 1,
         Reset]
   \<and> nothing_pending 2 (foldl obs_step obs_0
        [Reset, CallFlush 1, CallDone 1, CallBufferedWrite 0, Malloc 0 8 True,
         CallFlush 0, Memset 0 255 8, Memcpy 0 0x100E 6 [1, 2], CallFlush 0,
         Prepare 0 True, FlushRange 0 0x100E 0x1010,
         Write 0 0x100C [255, 255, 1, 2] 4 0, CallDone 0, Done 0 True, Free 0,
         CallFlush 0, CallDone 0, CallBufferedWrite 1, Malloc 1 8 True,
         CallFlush 1, Memset 1 255 8, Memcpy 1 0x1010 0 [3, 4],
         CallFlush 0, CallDone 0, CallBufferedWrite 1, Memcpy 1 0x1013 3 [5, 6, 7],
         CallFlush 0, CallDone 0, CallBufferedWrite 1, CallFlush 1, Prepare 1 True,
         FlushRange 1 0x1010 0x1016, Write 1 0x1010 [3, 4, 255, 5] 4 0,
         Write 1 0x1014 [6, 7, 255, 255] 4 0, Memset 1 255 8,
         Memcpy 1 0x1018 0 [9],
         CallFlush 0, CallDone 0, CallFlush 1, FlushRange 1 0x1018 0x1019,
         Write 1 0x1018 [9, 255, 255, 255] 4 0, CallDone 1, Done 1 True, Free 1,
         Reset])
   \<and> \<not> copies_ok (flash target_S) (0x1006, [161, 162, 163, 164], 4)
         (True, [Memcpy 0 0x1006 6 [161, 162], Memcpy 0 0x1008 0 [161, 162]])
   \<and> \<not> copies_ok (flash target_S) (0x1006, [161, 162, 163, 164], 4)
         (True, [Memcpy 0 0x1006 6 [161, 162]])
   \<and> \<not> nothing_pending 2 (foldl obs_step obs_0 [Memset 1 255 8, Memcpy 1 0x1018 0 [9]])
   \<and> \<not> writes_ok (flash target_S) obs_0
         [Memset 1 255 8, Memcpy 1 0x1010 0 [3, 4], Memset 1 255 8]
   \<and> \<not> writes_ok (flash target_S) obs_0
         [Memset 1 255 8, Memcpy 1 0x1010 0 [3, 4], FlushRange 1 0x1010 0x1012,
          Write 1 0x1010 [3, 4, 0, 255] 4 0]"
proof -
  let ?reqs = "[(0x100E, [1, 2, 3, 4], 4), (0x1013, [5, 6, 7], 3), (0x1018, [9], 1)]
                 :: request list"
  let ?outs = "[(True,
          [Reset, CallFlush 1, CallDone 1, CallBufferedWrite 0, Malloc 0 8 True,
           CallFlush 0, Memset 0 255 8, Memcpy 0 0x100E 6 [1, 2], CallFlush 0,
           Prepare 0 True, FlushRange 0 0x100E 0x1010,
           Write 0 0x100C [255, 255, 1, 2] 4 0, CallDone 0, Done 0 True, Free 0,
           CallFlush 0, CallDone 0, CallBufferedWrite 1, Malloc 1 8 True,
           CallFlush 1, Memset 1 255 8, Memcpy 1 0x1010 0 [3, 4]]),
         (True,
          [CallFlush 0, CallDone 0, CallBufferedWrite 1, Memcpy 1 0x1013 3 [5, 6, 7]]),
         (True,
          [CallFlush 0, CallDone 0, CallBufferedWrite 1, CallFlush 1, Prepare 1 True,
           FlushRange 1 0x1010 0x1016, Write 1 0x1010 [3, 4, 255, 5] 4 0,
           Write 1 0x1014 [6, 7, 255, 255] 4 0, Memset 1 255 8,
           Memcpy 1 0x1018 0 [9]])] :: (bool \<times> event list) list"
  let ?full = "[Reset, CallFlush 1, CallDone 1, CallBufferedWrite 0, Malloc 0 8 True,
         CallFlush 0, Memset 0 255 8, Memcpy 0 0x100E 6 [1, 2], CallFlush 0,
         Prepare 0 True, FlushRange 0 0x100E 0x1010,
         Write 0 0x100C [255, 255, 1, 2] 4 0, CallDone 0, Done 0 True, Free 0,
         CallFlush 0, CallDone 0, CallBufferedWrite 1, Malloc 1 8 True,
         CallFlush 1, Memset 1 255 8, Memcpy 1 0x1010 0 [3, 4],
         CallFlush 0, CallDone 0, CallBufferedWrite 1, Memcpy 1 0x1013 3 [5, 6, 7],
         CallFlush 0, CallDone 0, CallBufferedWrite 1, CallFlush 1, Prepare 1 True,
         FlushRange 1 0x1010 0x1016, Write 1 0x1010 [3, 4, 255, 5] 4 0,
         Write 1 0x1014 [6, 7, 255, 255] 4 0, Memset 1 255 8,
         Memcpy 1 0x1018 0 [9],
         CallFlush 0, CallDone 0, CallFlush 1, FlushRange 1 0x1018 0x1019,
         Write 1 0x1018 [9, 255, 255, 255] 4 0, CallDone 1, Done 1 True, Free 1,
         Reset] :: event list"
  have rq: "list_all request_ok ?reqs" by simp
  from target_flash_write_delivers_source_bytes[OF fresh_target_S rq, of env_A world_0]
  obtain outs t1 w1 rc t2 w2 where
    sq: "write_seq env_A target_S ?reqs world_0 = Some (outs, t1, w1)"
    and c1: "list_all2 (copies_ok (flash target_S)) ?reqs outs"
    and co: "target_flash_complete env_A t1 w1 = Some (rc, t2, w2)"
    and wo: "writes_ok (flash target_S) obs_0 (drop (length (trace world_0)) (trace w2))"
    and np: "nothing_pending (length (flash target_S))
          (foldl obs_step obs_0 (drop (length (trace world_0)) (trace w2)))"
    by (elim exE conjE) (rule that)
  from sq write_seq_target_S have outs: "outs = ?outs" by simp
  from sq co write_complete_target_S have "trace w2 = ?full" by (simp add: result_trace_def)
  then have dr: "drop (length (trace world_0)) (trace w2) = ?full" by (simp add: world_0_def)
  have n2: "length (flash target_S) = 2" by (simp add: target_S_def)
  have p1: "list_all2 (copies_ok (flash target_S)) ?reqs ?outs" using c1 unfolding outs .
  have p2: "writes_ok (flash target_S) obs_0 ?full" using wo unfolding dr .
  have p3: "nothing_pending 2 (foldl obs_step obs_0 ?full)" using np unfolding dr n2 .
  have n1: "\<not> copies_ok (flash target_S) (0x1006, [161, 162, 163, 164], 4)
         (True, [Memcpy 0 0x1006 6 [161, 162], Memcpy 0 0x1008 0 [161, 162]])"
    by (simp add: copies_sound_def upt_rec)
  have n1': "\<not> copies_ok (flash target_S) (0x1006, [161, 162, 163, 164], 4)
         (True, [Memcpy 0 0x1006 6 [161, 162]])"
    by (simp add: copies_all_def upt_rec)
  have n3: "\<not> nothing_pending 2 (foldl obs_step obs_0 [Memset 1 255 8, Memcpy 1 0x1018 0 [9]])"
    by (simp add: nothing_pending_def obs_0_def upt_rec)
  have n4: "\<not> writes_ok (flash target_S) obs_0
         [Memset 1 255 8, Memcpy 1 0x1010 0 [3, 4], Memset 1 255 8]"
    by (simp add: obs_0_def)
  have n5: "\<not> writes_ok (flash target_S) obs_0
         [Memset 1 255 8, Memcpy 1 0x1010 0 [3, 4], FlushRange 1 0x1010 0x1012,
          Write 1 0x1010 [3, 4, 0, 255] 4 0]"
    by (simp add: ex_defs obs_0_def expected_byte_def upt_rec)
  from fresh_target_S rq p1 p2 p3 n1 n1' n3 n4 n5 show ?thesis by (intro conjI)
qed
end
